theory Spec2Isabelle
  imports Main
begin

section \<open>JavaScript strings and the specifier pattern\<close>

text \<open>
  A JavaScript string is a sequence of UTF-16 code units; the regular expressions of
  \<^verbatim>\<open>upd.js\<close> (no \<^verbatim>\<open>u\<close> flag) work on code units. A code unit is modelled by its
  number. \<open>js\<close> turns an ASCII literal into such a string.
\<close>

type_synonym jschar = nat
type_synonym jsstring = "jschar list"

definition js :: "string \<Rightarrow> jsstring" where
  "js s = map of_char s"

text \<open>
  The character classes of the pattern of line 113,
  \<^verbatim>\<open>/^\s*(?:[\^~]\s*)?(\d+[^<>=|\s]*)\s*$/\<close>:
  \<^verbatim>\<open>\s\<close> is ECMAScript's WhiteSpace and LineTerminator (TAB, LF, VT, FF, CR, SP, NBSP,
  U+1680, U+2000..U+200A, U+2028, U+2029, U+202F, U+205F, U+3000, U+FEFF),
  \<^verbatim>\<open>\d\<close> is \<^verbatim>\<open>[0-9]\<close>, \<^verbatim>\<open>[\^~]\<close> the two range operators, and
  \<^verbatim>\<open>[^<>=|\s]\<close> every code unit that is none of
  \<^verbatim>\<open><\<close>, \<^verbatim>\<open>>\<close>, \<^verbatim>\<open>=\<close>, \<^verbatim>\<open>|\<close> and no white space.
\<close>

definition is_space :: "jschar \<Rightarrow> bool" where
  "is_space c \<longleftrightarrow>
     c = 9 \<or> c = 10 \<or> c = 11 \<or> c = 12 \<or> c = 13 \<or> c = 32 \<or> c = 160 \<or> c = 5760
     \<or> (8192 \<le> c \<and> c \<le> 8202)
     \<or> c = 8232 \<or> c = 8233 \<or> c = 8239 \<or> c = 8287 \<or> c = 12288 \<or> c = 65279"

definition is_digit :: "jschar \<Rightarrow> bool" where
  "is_digit c \<longleftrightarrow> 48 \<le> c \<and> c \<le> 57"

definition is_operator :: "jschar \<Rightarrow> bool" where
  "is_operator c \<longleftrightarrow> c = 94 \<or> c = 126"

definition is_version_char :: "jschar \<Rightarrow> bool" where
  "is_version_char c \<longleftrightarrow> c \<noteq> 60 \<and> c \<noteq> 62 \<and> c \<noteq> 61 \<and> c \<noteq> 124 \<and> \<not> is_space c"

text \<open>
  \<open>specifier_match sOld\<close> is \<^verbatim>\<open>sOld.match(/^\s*(?:[\^~]\s*)?(\d+[^<>=|\s]*)\s*$/)\<close>:
  \<open>None\<close> for \<^verbatim>\<open>null\<close>, \<open>Some m1\<close> for a match with capture group \<^verbatim>\<open>m[1]\<close>.
  The pattern is anchored at both ends and its adjacent pieces draw on disjoint
  character classes, so a left-to-right scan that takes each piece greedily decides it:
  leading white space, one optional operator with its white space, the longest run of
  version characters (which must start with a digit), and white space up to the end.
\<close>

definition specifier_match :: "jsstring \<Rightarrow> jsstring option" where
  "specifier_match sOld =
     (let s1 = dropWhile is_space sOld;
          s2 = (case s1 of [] \<Rightarrow> s1
                | c # r \<Rightarrow> if is_operator c then dropWhile is_space r else s1);
          m1 = takeWhile is_version_char s2;
          s3 = dropWhile is_version_char s2
      in (case m1 of [] \<Rightarrow> None
          | d # _ \<Rightarrow> if is_digit d \<and> list_all is_space s3 then Some m1 else None))"

text \<open>
  The pattern read as a grammar, piece by piece: \<open>specifier_re sOld v\<close> holds when
  \<open>sOld\<close> splits into white space, an optional operator followed by white space, the
  captured token \<open>v\<close> (a digit, then version characters) and trailing white space.
\<close>

definition is_version_token :: "jsstring \<Rightarrow> bool" where
  "is_version_token v \<longleftrightarrow>
     (case v of [] \<Rightarrow> False | d # r \<Rightarrow> is_digit d \<and> list_all is_version_char r)"

definition specifier_re :: "jsstring \<Rightarrow> jsstring \<Rightarrow> bool" where
  "specifier_re sOld v \<longleftrightarrow>
     (\<exists>ws1 opr ws3.
        sOld = ws1 @ opr @ v @ ws3 \<and> list_all is_space ws1 \<and> list_all is_space ws3
        \<and> (opr = [] \<or> (\<exists>c ws2. opr = c # ws2 \<and> is_operator c \<and> list_all is_space ws2))
        \<and> is_version_token v)"

text \<open>
  The grammar as the claim words it: optional white space, an optional operator, then
  the token, and nothing else. \<open>claimed_grammar_match\<close> decides it and returns the token.
\<close>

definition claimed_grammar_match :: "jsstring \<Rightarrow> jsstring option" where
  "claimed_grammar_match sOld =
     (let s1 = dropWhile is_space sOld;
          s2 = (case s1 of [] \<Rightarrow> s1 | c # r \<Rightarrow> if is_operator c then r else s1)
      in if is_version_token s2 then Some s2 else None)"

section \<open>The inventory\<close>

text \<open>
  The states a \<^verbatim>\<open>spec.state\<close> takes in \<^verbatim>\<open>upd.js\<close>. The program never assigns
  a state \<^verbatim>\<open>"error"\<close>: every failure is an exception that ends the run.
\<close>

datatype state = Ignored | Todo | Skipped | Check | Kept | Updated

text \<open>
  The object pushed at line 123. The field \<^verbatim>\<open>section\<close> is called \<open>sect\<close> here.
\<close>

record spec =
  sect :: jsstring
  sOld :: jsstring
  vOld :: jsstring
  sNew :: jsstring
  vNew :: jsstring
  state :: state

text \<open>
  \<^verbatim>\<open>manifest\<close> is an object from module names to arrays of specs; it is modelled by
  an association list with one pair per name, in the order of \<^verbatim>\<open>Object.keys\<close>.
\<close>

type_synonym manifest = "(jsstring \<times> spec list) list"

text \<open>
  \<^verbatim>\<open>Object.keys\<close> lists the keys that are array indices first, in ascending order, and
  then the other keys in the order they were set. An array index is the decimal numeral
  of a number below \<^verbatim>\<open>2^32 - 1\<close>, with no leading zero. \<open>insert_key\<close> and \<open>insert_entry\<close>
  put a key that the object does not have yet in its place.
\<close>

definition array_index :: "jsstring \<Rightarrow> nat" where
  "array_index k = foldl (\<lambda>n c. 10 * n + (c - 48)) 0 k"

definition is_index :: "jsstring \<Rightarrow> bool" where
  "is_index k \<longleftrightarrow>
     k \<noteq> [] \<and> list_all is_digit k \<and> (hd k \<noteq> 48 \<or> k = [48]) \<and> array_index k < 4294967295"

definition precedes :: "jsstring \<Rightarrow> jsstring \<Rightarrow> bool" where
  "precedes k x \<longleftrightarrow> is_index k \<and> (is_index x \<longrightarrow> array_index k < array_index x)"

fun insert_key :: "jsstring \<Rightarrow> jsstring list \<Rightarrow> jsstring list" where
  "insert_key k [] = [k]"
| "insert_key k (x # xs) = (if precedes k x then k # x # xs else x # insert_key k xs)"

fun insert_entry :: "jsstring \<Rightarrow> 'v \<Rightarrow> (jsstring \<times> 'v) list \<Rightarrow> (jsstring \<times> 'v) list" where
  "insert_entry k v [] = [(k, v)]"
| "insert_entry k v (x # xs) =
     (if precedes k (fst x) then (k, v) # x # xs else x # insert_entry k v xs)"

text \<open>\<^verbatim>\<open>manifest[name] = sps\<close> for a name the manifest has.\<close>

definition set_specs :: "manifest \<Rightarrow> jsstring \<Rightarrow> spec list \<Rightarrow> manifest" where
  "set_specs m name sps = map (\<lambda>entry. if fst entry = name then (name, sps) else entry) m"


section \<open>Errors and external collaborators\<close>

text \<open>
  Every \<^verbatim>\<open>throw\<close> of \<^verbatim>\<open>upd.js\<close> is a value, one constructor per \<^verbatim>\<open>throw\<close>
  statement (lines 95, 153, 154, 198, 216 and 226), and \<open>Thrown\<close> is an exception that
  a library call or a built-in raised. The run returns \<open>Inl\<close> of the error, which
  stands for the handler of lines 319-323 (message on stderr, \<^verbatim>\<open>process.exit(1)\<close>).
\<close>

datatype got_error = HTTPError nat | RequestError jsstring

datatype error =
    CannotFindFile
  | PackageNotFound jsstring
  | Rethrown got_error
  | NoLatestVersion jsstring
  | FailedToUpdate jsstring jsstring jsstring jsstring
  | FailedToFind jsstring jsstring
  | Thrown jsstring

text \<open>
  The body of a registry response, as far as lines 189-199 read it:
  \<^verbatim>\<open>data["dist-tags"].latest\<close> (\<open>None\<close> for \<^verbatim>\<open>undefined\<close>) and
  \<^verbatim>\<open>Object.keys(data.versions)\<close>.
\<close>

record pkginfo =
  dist_tags_latest :: "jsstring option"
  versions :: "jsstring list"

text \<open>
  \<^verbatim>\<open>pkg\<close> is the result of \<^verbatim>\<open>JSON.parse\<close>, as far as \<^verbatim>\<open>mixin\<close> reads it:
  \<open>pkg section\<close> is \<open>Some\<close> of the members of \<^verbatim>\<open>pkg[section]\<close> (name and specifier
  string, in \<^verbatim>\<open>Object.keys\<close> order) when \<^verbatim>\<open>typeof pkg[section] === "object"\<close>,
  and \<open>None\<close> otherwise. Specifiers are strings, as in every manifest npm accepts.
\<close>

type_synonym pkg = "jsstring \<Rightarrow> (jsstring \<times> jsstring) list option"

text \<open>
  Modelled from the spec: the syntax tree of the json-asty library, which is not part of
  the sources. The spec describes it as a tree that "preserves the original textual
  structure (node per object key/value, retaining raw source spans)", queried for "the
  exact value node holding the dependency's specifier string within its declared
  section (matched by both section name and package name)". The model keeps what the
  patcher can observe: the document in source order as a list of spans, each either raw
  text that no query of \<^verbatim>\<open>upd.js\<close> selects, or a string-valued member (its enclosing
  member's name, its own name, its source text and its value).
\<close>

datatype node = Raw jsstring | ValueString jsstring jsstring jsstring jsstring

type_synonym ast = "node list"

text \<open>Modelled from the spec: the source text of a node.\<close>

fun node_text :: "node \<Rightarrow> jsstring" where
  "node_text (Raw t) = t"
| "node_text (ValueString section module t v) = t"

text \<open>
  Modelled from the spec: \<^verbatim>\<open>JsonAsty.unparse\<close> renders the tree to text, span by span.
\<close>

definition unparse :: "ast \<Rightarrow> jsstring" where
  "unparse a = concat (map node_text a)"

text \<open>
  Modelled from the spec: whether the query compiled at lines 159-171 selects a node
  for the parameters \<^verbatim>\<open>{ section, module }\<close>.
\<close>

fun selects :: "jsstring \<Rightarrow> jsstring \<Rightarrow> node \<Rightarrow> bool" where
  "selects section module (Raw t) = False"
| "selects section module (ValueString s m t v) = (s = section \<and> m = module)"

text \<open>
  Modelled from the spec: \<^verbatim>\<open>ast.execute(astQuery, { section, module })\<close>, the selected
  nodes, each given by its position in the document.
\<close>

definition execute :: "ast \<Rightarrow> jsstring \<Rightarrow> jsstring \<Rightarrow> nat list" where
  "execute a section module = filter (\<lambda>i. selects section module (a ! i)) [0..<length a]"

text \<open>
  Modelled from the spec: \<^verbatim>\<open>node.set({ text, value })\<close> on a string-valued member;
  the node keeps its place and its names.
\<close>

fun node_set :: "node \<Rightarrow> jsstring \<Rightarrow> jsstring \<Rightarrow> node" where
  "node_set (Raw t0) t v = Raw t0"
| "node_set (ValueString s m t0 v0) t v = ValueString s m t v"


text \<open>
  The libraries and the outside world of a run. None of them is part of the sources;
  the program is modelled over any such environment.
  \<^item> \<open>readFile\<close>: the content of \<^verbatim>\<open>argv.file\<close>, \<open>None\<close> when \<^verbatim>\<open>fs.existsSync\<close> is false;
  \<^item> \<open>JSON_parse\<close>, \<open>JsonAsty_parse\<close>, \<open>JSON_stringify\<close>;
  \<^item> \<open>micromatch list patterns\<close>;
  \<^item> \<open>toLowerCase\<close>;
  \<^item> \<open>got name\<close>: the registry request for a package name (URL, headers and proxy
    agent of lines 135-150 are the transport);
  \<^item> \<open>semver_gt\<close>, \<open>semver_rcompare\<close>, which throw on a string that is no version.

  A library call that throws returns \<open>Inl\<close> of the exception's message; the run turns
  it into the error \<open>Thrown\<close>.
\<close>

record env =
  readFile :: "jsstring option"
  JSON_parse :: "jsstring \<Rightarrow> jsstring + pkg"
  JsonAsty_parse :: "jsstring \<Rightarrow> jsstring + ast"
  JSON_stringify :: "jsstring \<Rightarrow> jsstring"
  micromatch :: "jsstring list \<Rightarrow> jsstring list \<Rightarrow> jsstring + jsstring list"
  toLowerCase :: "jsstring \<Rightarrow> jsstring"
  got :: "jsstring \<Rightarrow> got_error + pkginfo"
  semver_gt :: "jsstring \<Rightarrow> jsstring \<Rightarrow> jsstring + bool"
  semver_rcompare :: "jsstring \<Rightarrow> jsstring \<Rightarrow> jsstring + int"

text \<open>
  The command line, as far as the run reads it: \<^verbatim>\<open>argv._\<close>, \<^verbatim>\<open>argv.nop\<close>,
  \<^verbatim>\<open>argv.greatest\<close>, \<^verbatim>\<open>argv.all\<close>.
\<close>

record argv =
  patterns :: "jsstring list"
  nop :: bool
  greatest :: bool
  show_all :: bool

text \<open>
  \<^verbatim>\<open>forEach\<close> and the \<^verbatim>\<open>for\<close> loop of line 186 thread the mutable variables through
  their body; an exception in the body ends the loop.
\<close>

fun forEach :: "('s \<Rightarrow> 'a \<Rightarrow> error + 's) \<Rightarrow> 's \<Rightarrow> 'a list \<Rightarrow> error + 's" where
  "forEach f s [] = Inr s"
| "forEach f s (x # xs) = (case f s x of Inl e \<Rightarrow> Inl e | Inr s' \<Rightarrow> forEach f s' xs)"

section \<open>Selection and \<^verbatim>\<open>mixin\<close> (lines 103-130)\<close>

text \<open>\<^verbatim>\<open>p.match(/^!/) !== null\<close>\<close>

definition negated :: "jsstring \<Rightarrow> bool" where
  "negated p \<longleftrightarrow> (case p of [] \<Rightarrow> False | c # _ \<Rightarrow> c = 33)"

text \<open>
  Lines 109-111. With no pattern \<^verbatim>\<open>micromatch\<close> is not called (\<^verbatim>\<open>||\<close> short-circuits).
\<close>

definition selection :: "env \<Rightarrow> jsstring list \<Rightarrow> jsstring \<Rightarrow> error + state" where
  "selection env ps module =
     (case ps of [] \<Rightarrow> Inr Todo
      | p # _ \<Rightarrow>
         (case micromatch env [module] ((if negated p then [js ''*''] else []) @ ps) of
            Inl x \<Rightarrow> Inl (Thrown x)
          | Inr ms \<Rightarrow> Inr (if length ms > 0 then Todo else Ignored)))"

text \<open>
  Lines 121-123. \<^verbatim>\<open>manifest\<close> starts as \<^verbatim>\<open>{}\<close>, so for a module named like a member
  of \<^verbatim>\<open>Object.prototype\<close> the value \<^verbatim>\<open>manifest[module]\<close> is that member: it is not
  \<^verbatim>\<open>undefined\<close>, no array is created, and it has no \<^verbatim>\<open>push\<close>, so line 123 throws a
  TypeError. For every other module \<open>push\<close> is \<^verbatim>\<open>manifest[module].push(...)\<close>, creating
  the array when absent.
\<close>

definition object_prototype :: "jsstring list" where
  "object_prototype =
     [js ''constructor'', js ''__defineGetter__'', js ''__defineSetter__'', js ''hasOwnProperty'',
      js ''__lookupGetter__'', js ''__lookupSetter__'', js ''isPrototypeOf'',
      js ''propertyIsEnumerable'', js ''toString'', js ''valueOf'', js ''__proto__'',
      js ''toLocaleString'']"

definition push :: "manifest \<Rightarrow> jsstring \<Rightarrow> spec \<Rightarrow> manifest" where
  "push m module sp =
     (case map_of m module of
        None \<Rightarrow> insert_entry module [sp] m
      | Some sps \<Rightarrow> set_specs m module (sps @ [sp]))"

text \<open>Lines 107-120: the spec of one member of a section.\<close>

definition classify :: "env \<Rightarrow> argv \<Rightarrow> jsstring \<Rightarrow> jsstring \<Rightarrow> jsstring \<Rightarrow> error + spec" where
  "classify env av section module s =
     (case selection env (patterns av) module of
        Inl e \<Rightarrow> Inl e
      | Inr st \<Rightarrow>
          Inr (if st = Todo then
                 (case specifier_match s of
                    Some m1 \<Rightarrow> \<lparr>sect = section, sOld = s, vOld = m1, sNew = s, vNew = m1, state = Check\<rparr>
                  | None \<Rightarrow> \<lparr>sect = section, sOld = s, vOld = s, sNew = s, vNew = s, state = Skipped\<rparr>)
               else \<lparr>sect = section, sOld = s, vOld = s, sNew = s, vNew = s, state = st\<rparr>))"

definition mixin_member ::
  "env \<Rightarrow> argv \<Rightarrow> jsstring \<Rightarrow> manifest \<Rightarrow> jsstring \<times> jsstring \<Rightarrow> error + manifest" where
  "mixin_member env av section m member =
     (case classify env av section (fst member) (snd member) of
        Inl e \<Rightarrow> Inl e
      | Inr sp \<Rightarrow>
          if fst member \<in> set object_prototype
          then Inl (Thrown (js ''manifest[module].push is not a function''))
          else Inr (push m (fst member) sp))"

definition mixin :: "env \<Rightarrow> argv \<Rightarrow> pkg \<Rightarrow> manifest \<Rightarrow> jsstring \<Rightarrow> error + manifest" where
  "mixin env av pk m section =
     (case pk section of None \<Rightarrow> Inr m
      | Some members \<Rightarrow> forEach (mixin_member env av section) m members)"

text \<open>Lines 127-130: the four sections, in this order.\<close>

definition sections :: "jsstring list" where
  "sections = [js ''optionalDependencies'', js ''peerDependencies'',
               js ''devDependencies'', js ''dependencies'']"

definition build_manifest :: "env \<Rightarrow> argv \<Rightarrow> pkg \<Rightarrow> error + manifest" where
  "build_manifest env av pk = forEach (mixin env av pk) [] sections"

section \<open>Resolution (lines 133-199)\<close>

text \<open>
  \<^verbatim>\<open>fetchPackageInfo\<close>, lines 147-155: the body of the response, or the error of
  \<^verbatim>\<open>got\<close> with status 404 turned into "package not found".
\<close>

definition fetchPackageInfo :: "env \<Rightarrow> jsstring \<Rightarrow> error + pkginfo" where
  "fetchPackageInfo env name =
     (case got env name of
        Inr body \<Rightarrow> Inr body
      | Inl err \<Rightarrow>
          (case err of
             HTTPError code \<Rightarrow> if code = 404 then Inl (PackageNotFound name) else Inl (Rethrown err)
           | RequestError msg \<Rightarrow> Inl (Rethrown err)))"

text \<open>
  Lines 174-180: \<^verbatim>\<open>checked[name] = true\<close> for every spec in state check.
  \<^verbatim>\<open>checked\<close> is modelled by its keys, in the order of \<^verbatim>\<open>Object.keys\<close>.
\<close>

definition set_key :: "jsstring list \<Rightarrow> jsstring \<Rightarrow> jsstring list" where
  "set_key ks k = (if k \<in> set ks then ks else insert_key k ks)"

definition checked :: "manifest \<Rightarrow> jsstring list" where
  "checked m =
     foldl (\<lambda>ks entry.
              foldl (\<lambda>ks sp. if state sp = Check then set_key ks (fst entry) else ks)
                ks (snd entry))
       [] m"

text \<open>
  Lines 181-184. \<^verbatim>\<open>awaityMapLimit\<close> is modelled by its result: one element per key,
  in the order of the keys, or the rejection of a lookup. How many lookups are pending
  at a time is not part of the model.
\<close>

fun mapLimit :: "('a \<Rightarrow> error + 'b) \<Rightarrow> 'a list \<Rightarrow> error + 'b list" where
  "mapLimit f [] = Inr []"
| "mapLimit f (x # xs) =
     (case f x of Inl e \<Rightarrow> Inl e
      | Inr y \<Rightarrow> (case mapLimit f xs of Inl e \<Rightarrow> Inl e | Inr ys \<Rightarrow> Inr (y # ys)))"

definition lookup :: "env \<Rightarrow> jsstring \<Rightarrow> error + jsstring \<times> pkginfo" where
  "lookup env name =
     (case fetchPackageInfo env (toLowerCase env name) of
        Inl e \<Rightarrow> Inl e
      | Inr data \<Rightarrow> Inr (name, data))"

text \<open>
  \<^verbatim>\<open>Array.prototype.sort\<close> with a comparator that may throw, modelled by a stable
  insertion sort.
\<close>

fun insort_by ::
  "(jsstring \<Rightarrow> jsstring \<Rightarrow> jsstring + int) \<Rightarrow> jsstring \<Rightarrow> jsstring list \<Rightarrow> jsstring + jsstring list" where
  "insort_by cmp x [] = Inr [x]"
| "insort_by cmp x (y # ys) =
     (case cmp x y of Inl e \<Rightarrow> Inl e
      | Inr c \<Rightarrow>
          if c \<le> 0 then Inr (x # y # ys)
          else (case insort_by cmp x ys of Inl e \<Rightarrow> Inl e | Inr zs \<Rightarrow> Inr (y # zs)))"

fun sort_by ::
  "(jsstring \<Rightarrow> jsstring \<Rightarrow> jsstring + int) \<Rightarrow> jsstring list \<Rightarrow> jsstring + jsstring list" where
  "sort_by cmp [] = Inr []"
| "sort_by cmp (x # xs) =
     (case sort_by cmp xs of Inl e \<Rightarrow> Inl e | Inr ys \<Rightarrow> insort_by cmp x ys)"

text \<open>
  Lines 188-199: the resolution target \<^verbatim>\<open>vNew\<close>. With \<^verbatim>\<open>argv.greatest\<close> and no
  published version \<^verbatim>\<open>versions[0]\<close> is \<^verbatim>\<open>undefined\<close>; the name has a spec in state
  check, whose \<^verbatim>\<open>semver.gt(spec.vOld, undefined)\<close> throws a TypeError.
\<close>

definition resolve :: "env \<Rightarrow> argv \<Rightarrow> jsstring \<Rightarrow> pkginfo \<Rightarrow> error + jsstring" where
  "resolve env av name data =
     (if greatest av then
        (case sort_by (semver_rcompare env) (versions data) of
           Inl x \<Rightarrow> Inl (Thrown x)
         | Inr [] \<Rightarrow> Inl (Thrown (js ''Invalid Version: undefined''))
         | Inr (v # _) \<Rightarrow> Inr v)
      else
        (case dist_tags_latest data of
           None \<Rightarrow> Inl (NoLatestVersion name)
         | Some v \<Rightarrow> Inr v))"

section \<open>The merge (lines 200-234)\<close>

text \<open>
  \<^verbatim>\<open>s.replace(new RegExp(escRE(pat), ""), repl)\<close>: \<^verbatim>\<open>escRE\<close> escapes every special
  character, so the expression matches \<open>pat\<close> literally, and without the \<^verbatim>\<open>g\<close> flag
  only the first occurrence is replaced. \<open>find_first pat s\<close> is the text before and
  after the first occurrence.
\<close>

fun find_first :: "jsstring \<Rightarrow> jsstring \<Rightarrow> (jsstring \<times> jsstring) option" where
  "find_first pat [] = (if pat = [] then Some ([], []) else None)"
| "find_first pat (c # s) =
     (if take (length pat) (c # s) = pat then Some ([], drop (length pat) (c # s))
      else (case find_first pat s of None \<Rightarrow> None | Some (b, a) \<Rightarrow> Some (c # b, a)))"

text \<open>
  The replacement text is a pattern (ECMAScript's GetSubstitution): \<^verbatim>\<open>$$\<close> is a dollar
  sign, \<^verbatim>\<open>$&\<close> the matched text, \<^verbatim>\<open>$`\<close> the text before the match, \<^verbatim>\<open>$'\<close> the text
  after it. The expression has no capture group, so \<^verbatim>\<open>$1\<close> and the like stay as they are.
\<close>

fun substitution :: "jsstring \<Rightarrow> jsstring \<Rightarrow> jsstring \<Rightarrow> jsstring \<Rightarrow> jsstring" where
  "substitution matched b a [] = []"
| "substitution matched b a [c] = [c]"
| "substitution matched b a (c # d # r) =
     (if c = 36 then
        (if d = 36 then 36 # substitution matched b a r
         else if d = 38 then matched @ substitution matched b a r
         else if d = 96 then b @ substitution matched b a r
         else if d = 39 then a @ substitution matched b a r
         else c # substitution matched b a (d # r))
      else c # substitution matched b a (d # r))"

definition replace :: "jsstring \<Rightarrow> jsstring \<Rightarrow> jsstring \<Rightarrow> jsstring" where
  "replace s pat repl =
     (case find_first pat s of
        None \<Rightarrow> s
      | Some (b, a) \<Rightarrow> b @ substitution pat b a repl @ a)"

text \<open>
  Lines 201-232, the body of \<^verbatim>\<open>manifest[name].forEach\<close>: the spec, the tree and
  \<^verbatim>\<open>updates\<close> after it, or the exception it throws.
\<close>

definition merge_spec ::
  "env \<Rightarrow> argv \<Rightarrow> jsstring \<Rightarrow> jsstring \<Rightarrow> spec \<Rightarrow> ast \<Rightarrow> bool \<Rightarrow> error + spec \<times> ast \<times> bool" where
  "merge_spec env av name vN sp a u =
     (if state sp = Check then
        (let sp1 = sp\<lparr>vNew := vN, sNew := vN\<rparr> in
         if vOld sp1 = vNew sp1 then Inr (sp1\<lparr>state := Kept\<rparr>, a, u)
         else
           (case semver_gt env (vOld sp1) (vNew sp1) of
              Inl x \<Rightarrow> Inl (Thrown x)
            | Inr True \<Rightarrow> Inr (sp1\<lparr>state := Kept\<rparr>, a, u)
            | Inr False \<Rightarrow>
                (let sp2 = sp1\<lparr>state := Updated, sNew := replace (sOld sp1) (vOld sp1) (vNew sp1)\<rparr> in
                 if sNew sp2 = sOld sp2 then
                   Inl (FailedToUpdate name (sOld sp2) (vOld sp2) (vNew sp2))
                 else if \<not> nop av then
                   (case execute a (sect sp2) name of
                      [i] \<Rightarrow>
                        Inr (sp2, a[i := node_set (a ! i) (JSON_stringify env (sNew sp2)) (sNew sp2)], True)
                    | _ \<Rightarrow> Inl (FailedToFind name (sect sp2)))
                 else Inr (sp2, a, True))))
      else Inr (sp, a, u))"

fun merge_specs ::
  "env \<Rightarrow> argv \<Rightarrow> jsstring \<Rightarrow> jsstring \<Rightarrow> spec list \<Rightarrow> ast \<Rightarrow> bool
     \<Rightarrow> error + spec list \<times> ast \<times> bool" where
  "merge_specs env av name vN [] a u = Inr ([], a, u)"
| "merge_specs env av name vN (sp # sps) a u =
     (case merge_spec env av name vN sp a u of
        Inl e \<Rightarrow> Inl e
      | Inr (sp', a', u') \<Rightarrow>
          (case merge_specs env av name vN sps a' u' of
             Inl e \<Rightarrow> Inl e
           | Inr (sps', a'', u'') \<Rightarrow> Inr (sp' # sps', a'', u'')))"

text \<open>
  Lines 187-233, the body of the loop over \<^verbatim>\<open>results\<close>. Every result's name is a key
  of \<^verbatim>\<open>checked\<close> and so of \<^verbatim>\<open>manifest\<close>; \<^verbatim>\<open>undefined.forEach\<close> would throw.
\<close>

definition merge_result ::
  "env \<Rightarrow> argv \<Rightarrow> manifest \<times> ast \<times> bool \<Rightarrow> jsstring \<times> pkginfo \<Rightarrow> error + manifest \<times> ast \<times> bool" where
  "merge_result env av vars result =
     (case vars of (m, a, u) \<Rightarrow>
      (case resolve env av (fst result) (snd result) of
         Inl e \<Rightarrow> Inl e
       | Inr vN \<Rightarrow>
           (case map_of m (fst result) of
              None \<Rightarrow> Inl (Thrown (js ''Cannot read property forEach of undefined''))
            | Some sps \<Rightarrow>
                (case merge_specs env av (fst result) vN sps a u of
                   Inl e \<Rightarrow> Inl e
                 | Inr (sps', a', u') \<Rightarrow> Inr (set_specs m (fst result) sps', a', u')))))"

section \<open>The run (lines 89-323)\<close>

text \<open>
  What a run that returns leaves behind: the inventory, \<^verbatim>\<open>updates\<close>, and the text
  that \<^verbatim>\<open>fs.writeFileSync\<close> wrote to \<^verbatim>\<open>argv.file\<close>, if it was called.
\<close>

record outcome =
  out_manifest :: manifest
  out_updates :: bool
  out_written :: "jsstring option"

text \<open>
  Lines 98-234, \<open>pkgData\<close> being the content of the file: \<^verbatim>\<open>manifest\<close>, the tree and
  \<^verbatim>\<open>updates\<close> when the loop over \<^verbatim>\<open>results\<close> ends.
\<close>

definition merged :: "env \<Rightarrow> argv \<Rightarrow> jsstring \<Rightarrow> error + manifest \<times> ast \<times> bool" where
  "merged env av pkgData =
     (case JSON_parse env pkgData of
        Inl x \<Rightarrow> Inl (Thrown x)
      | Inr pk \<Rightarrow>
     (case JsonAsty_parse env pkgData of
        Inl x \<Rightarrow> Inl (Thrown x)
      | Inr a \<Rightarrow>
     (case build_manifest env av pk of
        Inl e \<Rightarrow> Inl e
      | Inr m \<Rightarrow>
     (case mapLimit (lookup env) (checked m) of
        Inl e \<Rightarrow> Inl e
      | Inr results \<Rightarrow> forEach (merge_result env av) (m, a, False) results))))"

text \<open>
  Lines 98-318: the run once the file is read. Lines 314-318 write the rendering of the
  tree when \<^verbatim>\<open>updates\<close> is true and \<^verbatim>\<open>argv.nop\<close> is not set.
\<close>

definition run_on :: "env \<Rightarrow> argv \<Rightarrow> jsstring \<Rightarrow> error + outcome" where
  "run_on env av pkgData =
     (case merged env av pkgData of
        Inl e \<Rightarrow> Inl e
      | Inr (m', a', updates) \<Rightarrow>
          Inr \<lparr>out_manifest = m', out_updates = updates,
               out_written = (if updates \<and> \<not> nop av then Some (unparse a') else None)\<rparr>)"

text \<open>Lines 93-96, and then the above.\<close>

definition run :: "env \<Rightarrow> argv \<Rightarrow> error + outcome" where
  "run env av =
     (case readFile env of
        None \<Rightarrow> Inl CannotFindFile
      | Some pkgData \<Rightarrow> run_on env av pkgData)"

text \<open>The content of \<^verbatim>\<open>argv.file\<close> after the run, and the exit code of the process.\<close>

definition file_after :: "env \<Rightarrow> error + outcome \<Rightarrow> jsstring option" where
  "file_after env r =
     (case r of
        Inl e \<Rightarrow> readFile env
      | Inr out \<Rightarrow> (case out_written out of None \<Rightarrow> readFile env | Some t \<Rightarrow> Some t))"

definition exit_code :: "error + outcome \<Rightarrow> nat" where
  "exit_code r = (case r of Inl e \<Rightarrow> 1 | Inr out \<Rightarrow> 0)"

text \<open>
  Lines 263-290: the rows of the table (name, old and new specifier, state), before
  colours and diff marks are applied.
\<close>

definition report :: "argv \<Rightarrow> manifest \<Rightarrow> (jsstring \<times> jsstring \<times> jsstring \<times> state) list" where
  "report av m =
     concat (map (\<lambda>entry.
        map (\<lambda>sp. (fst entry, sOld sp, sNew sp, state sp))
          (filter (\<lambda>sp. state sp = Updated \<or> show_all av) (snd entry))) m)"

section \<open>Properties of the libraries\<close>


text \<open>
  It throws on a string that is no version, and a version has no dollar sign (code
  unit 36): its characters are digits, letters, \<^verbatim>\<open>.\<close>, \<^verbatim>\<open>-\<close> and \<^verbatim>\<open>+\<close>.
\<close>

definition semver_validates :: "env \<Rightarrow> bool" where
  "semver_validates env \<longleftrightarrow>
     (\<forall>a b r. semver_gt env a b = Inr r \<longrightarrow> 36 \<notin> set a \<and> 36 \<notin> set b)"



section \<open>A concrete environment\<close>

text \<open>
  Modelled from the spec: the semver library, which is not part of the sources. The
  spec asks for "semantic-version ordering (major.minor.patch plus pre-release
  precedence rules), not lexicographic string comparison". A version is
  \<^verbatim>\<open>major.minor.patch\<close>, then optionally \<^verbatim>\<open>-\<close> and dot-separated pre-release
  identifiers, then optionally \<^verbatim>\<open>+\<close> and dot-separated build identifiers.
\<close>

fun split_on :: "jschar \<Rightarrow> jsstring \<Rightarrow> jsstring list" where
  "split_on c [] = [[]]"
| "split_on c (x # xs) =
     (if x = c then [] # split_on c xs
      else (case split_on c xs of [] \<Rightarrow> [[x]] | p # ps \<Rightarrow> (x # p) # ps))"

definition numeric :: "jsstring \<Rightarrow> bool" where
  "numeric s \<longleftrightarrow> s \<noteq> [] \<and> list_all is_digit s"

definition to_number :: "jsstring \<Rightarrow> nat" where
  "to_number s = foldl (\<lambda>n c. 10 * n + (c - 48)) 0 s"

definition is_identifier_char :: "jschar \<Rightarrow> bool" where
  "is_identifier_char c \<longleftrightarrow>
     is_digit c \<or> (65 \<le> c \<and> c \<le> 90) \<or> (97 \<le> c \<and> c \<le> 122) \<or> c = 45"

definition is_identifier :: "jsstring \<Rightarrow> bool" where
  "is_identifier s \<longleftrightarrow> s \<noteq> [] \<and> list_all is_identifier_char s"

record version =
  major :: nat
  minor :: nat
  patch :: nat
  prerelease :: "jsstring list"

definition parse_version :: "jsstring \<Rightarrow> version option" where
  "parse_version s =
     (let plain = takeWhile (\<lambda>c. c \<noteq> 43) s;
          build = dropWhile (\<lambda>c. c \<noteq> 43) s;
          main = takeWhile (\<lambda>c. c \<noteq> 45) plain;
          pre = dropWhile (\<lambda>c. c \<noteq> 45) plain
      in if (build = [] \<or> list_all is_identifier (split_on 46 (tl build)))
            \<and> (pre = [] \<or> list_all is_identifier (split_on 46 (tl pre)))
         then (case split_on 46 main of
                 [x, y, z] \<Rightarrow>
                   if numeric x \<and> numeric y \<and> numeric z then
                     Some \<lparr>major = to_number x, minor = to_number y, patch = to_number z,
                           prerelease = (if pre = [] then [] else split_on 46 (tl pre))\<rparr>
                   else None
               | _ \<Rightarrow> None)
         else None)"

text \<open>
  Modelled from the spec: precedence. Numbers compare as numbers; of two pre-release
  identifiers a numeric one is lower than an alphanumeric one, two alphanumeric ones
  compare by code units; a longer list of identifiers wins over its own prefix; a
  version without pre-release wins over the same version with one.
\<close>

definition compare_nat :: "nat \<Rightarrow> nat \<Rightarrow> int" where
  "compare_nat a b = (if a < b then - 1 else if a = b then 0 else 1)"

fun compare_string :: "jsstring \<Rightarrow> jsstring \<Rightarrow> int" where
  "compare_string [] [] = 0"
| "compare_string [] (y # ys) = - 1"
| "compare_string (x # xs) [] = 1"
| "compare_string (x # xs) (y # ys) = (if x = y then compare_string xs ys else compare_nat x y)"

definition compare_identifiers :: "jsstring \<Rightarrow> jsstring \<Rightarrow> int" where
  "compare_identifiers a b =
     (if numeric a \<and> numeric b then compare_nat (to_number a) (to_number b)
      else if numeric a then - 1
      else if numeric b then 1
      else compare_string a b)"

fun compare_pre :: "jsstring list \<Rightarrow> jsstring list \<Rightarrow> int" where
  "compare_pre [] [] = 0"
| "compare_pre [] (y # ys) = - 1"
| "compare_pre (x # xs) [] = 1"
| "compare_pre (x # xs) (y # ys) =
     (if compare_identifiers x y = 0 then compare_pre xs ys else compare_identifiers x y)"

definition compare_versions :: "version \<Rightarrow> version \<Rightarrow> int" where
  "compare_versions a b =
     (if major a \<noteq> major b then compare_nat (major a) (major b)
      else if minor a \<noteq> minor b then compare_nat (minor a) (minor b)
      else if patch a \<noteq> patch b then compare_nat (patch a) (patch b)
      else if prerelease a = [] \<and> prerelease b = [] then 0
      else if prerelease a = [] then 1
      else if prerelease b = [] then - 1
      else compare_pre (prerelease a) (prerelease b))"

definition compare :: "jsstring \<Rightarrow> jsstring \<Rightarrow> jsstring + int" where
  "compare a b =
     (case parse_version a of
        None \<Rightarrow> Inl (js ''Invalid Version'')
      | Some x \<Rightarrow>
          (case parse_version b of
             None \<Rightarrow> Inl (js ''Invalid Version'')
           | Some y \<Rightarrow> Inr (compare_versions x y)))"

definition gt :: "jsstring \<Rightarrow> jsstring \<Rightarrow> jsstring + bool" where
  "gt a b = (case compare a b of Inl e \<Rightarrow> Inl e | Inr c \<Rightarrow> Inr (c > 0))"

definition rcompare :: "jsstring \<Rightarrow> jsstring \<Rightarrow> jsstring + int" where
  "rcompare a b = compare b a"

text \<open>
  Modelled from the spec: the micromatch library, which is not part of the sources.
  The spec asks for "glob-style matching" of names, and a list of patterns that is
  applied "in order", a pattern with a leading \<^verbatim>\<open>!\<close> excluding what it matches. In a
  glob \<^verbatim>\<open>*\<close> stands for any run of characters; every other character stands for itself.
\<close>

fun glob :: "jsstring \<Rightarrow> jsstring \<Rightarrow> bool" where
  "glob [] [] = True"
| "glob [] (c # s) = False"
| "glob (p # ps) [] = (p = 42 \<and> glob ps [])"
| "glob (p # ps) (c # s) =
     (if p = 42 then glob ps (c # s) \<or> glob (p # ps) s else p = c \<and> glob ps s)"

definition included :: "jsstring list \<Rightarrow> jsstring \<Rightarrow> bool" where
  "included ps name =
     foldl (\<lambda>inc p. if negated p then inc \<and> \<not> glob (tl p) name else inc \<or> glob p name)
       False ps"

definition glob_micromatch :: "jsstring list \<Rightarrow> jsstring list \<Rightarrow> jsstring + jsstring list" where
  "glob_micromatch list ps = Inr (filter (included ps) list)"

text \<open>
  The scenario of the spec: the manifest declares \<^verbatim>\<open>"left-pad": "^1.2.0"\<close> under
  \<^verbatim>\<open>dependencies\<close> and the registry reports \<^verbatim>\<open>1.3.0\<close> as latest. A second package,
  \<^verbatim>\<open>is-odd\<close>, is given by a URL, and \<^verbatim>\<open>left-pad\<close> is also a development dependency.
\<close>

definition manifest_text :: "jsstring list" where
  "manifest_text =
     [js ''{ \"devDependencies\": { \"left-pad\": '', js ''\"~1.2.0\"'',
      js '' }, \"dependencies\": { \"left-pad\": '', js ''\"^1.2.0\"'',
      js '', \"is-odd\": '', js ''\"git+https://example/repo.git\"'', js '' } }'']"

definition example_pkg :: pkg where
  "example_pkg section =
     (if section = js ''devDependencies'' then Some [(js ''left-pad'', js ''~1.2.0'')]
      else if section = js ''dependencies'' then
        Some [(js ''left-pad'', js ''^1.2.0''), (js ''is-odd'', js ''git+https://example/repo.git'')]
      else None)"

definition example_ast :: ast where
  "example_ast =
     [Raw (manifest_text ! 0),
      ValueString (js ''devDependencies'') (js ''left-pad'') (manifest_text ! 1) (js ''~1.2.0''),
      Raw (manifest_text ! 2),
      ValueString (js ''dependencies'') (js ''left-pad'') (manifest_text ! 3) (js ''^1.2.0''),
      Raw (manifest_text ! 4),
      ValueString (js ''dependencies'') (js ''is-odd'') (manifest_text ! 5)
        (js ''git+https://example/repo.git''),
      Raw (manifest_text ! 6)]"

definition example_registry :: "jsstring \<Rightarrow> got_error + pkginfo" where
  "example_registry name =
     (if name = js ''left-pad'' then
        Inr \<lparr>dist_tags_latest = Some (js ''1.3.0''), versions = [js ''1.2.0'', js ''1.3.0'']\<rparr>
      else Inl (HTTPError 404))"

text \<open>
  The same manifest with the two \<^verbatim>\<open>left-pad\<close> entries at \<^verbatim>\<open>1.3.0\<close>, and the parsers
  of the environment, which know these two texts.
\<close>

definition updated_pkg :: pkg where
  "updated_pkg section =
     (if section = js ''devDependencies'' then Some [(js ''left-pad'', js ''~1.3.0'')]
      else if section = js ''dependencies'' then
        Some [(js ''left-pad'', js ''^1.3.0''), (js ''is-odd'', js ''git+https://example/repo.git'')]
      else None)"

definition updated_ast :: ast where
  "updated_ast =
     example_ast
       [1 := ValueString (js ''devDependencies'') (js ''left-pad'') (js ''\"~1.3.0\"'') (js ''~1.3.0''),
        3 := ValueString (js ''dependencies'') (js ''left-pad'') (js ''\"^1.3.0\"'') (js ''^1.3.0'')]"

definition example_parse :: "jsstring \<Rightarrow> jsstring + pkg" where
  "example_parse t =
     (if t = concat manifest_text then Inr example_pkg
      else if t = unparse updated_ast then Inr updated_pkg
      else Inl (js ''Unexpected token''))"

definition example_asty :: "jsstring \<Rightarrow> jsstring + ast" where
  "example_asty t =
     (if t = concat manifest_text then Inr example_ast
      else if t = unparse updated_ast then Inr updated_ast
      else Inl (js ''Parsing failed''))"

definition example_env :: env where
  "example_env =
     \<lparr>readFile = Some (concat manifest_text),
      JSON_parse = example_parse,
      JsonAsty_parse = example_asty,
      JSON_stringify = (\<lambda>s. 34 # s @ [34]),
      micromatch = glob_micromatch,
      toLowerCase = map (\<lambda>c. if 65 \<le> c \<and> c \<le> 90 then c + 32 else c),
      got = example_registry,
      semver_gt = gt,
      semver_rcompare = rcompare\<rparr>"

definition example_argv :: argv where
  "example_argv = \<lparr>patterns = [], nop = False, greatest = False, show_all = False\<rparr>"

text \<open>
  Three specs in state check as \<^verbatim>\<open>mixin\<close> builds them: the \<^verbatim>\<open>dependencies\<close> entry
  of \<^verbatim>\<open>left-pad\<close> above, an entry pinned at \<^verbatim>\<open>^2.0.0\<close>, ahead of the registry, and an
  entry pinned at \<^verbatim>\<open>^1.2.0+b1\<close>, a version with build metadata.
\<close>

definition example_spec :: spec where
  "example_spec =
     \<lparr>sect = js ''dependencies'', sOld = js ''^1.2.0'', vOld = js ''1.2.0'',
      sNew = js ''^1.2.0'', vNew = js ''1.2.0'', state = Check\<rparr>"

definition pinned_ahead :: spec where
  "pinned_ahead =
     \<lparr>sect = js ''dependencies'', sOld = js ''^2.0.0'', vOld = js ''2.0.0'',
      sNew = js ''^2.0.0'', vNew = js ''2.0.0'', state = Check\<rparr>"


text \<open>
  The same manifest with one more member, \<^verbatim>\<open>"bundle": { "dependencies": { "left-pad":
  "0.1.0" } }\<close>: a second string-valued member \<^verbatim>\<open>left-pad\<close> below a member
  \<^verbatim>\<open>dependencies\<close>, which is not a section of the manifest.
\<close>

definition nested_ast :: ast where
  "nested_ast =
     butlast example_ast @
     [Raw (js '' }, \"bundle\": { \"dependencies\": { \"left-pad\": ''),
      ValueString (js ''dependencies'') (js ''left-pad'') (js ''\"0.1.0\"'') (js ''0.1.0''),
      Raw (js '' } } }'')]"

definition nested_env :: env where
  "nested_env =
     example_env\<lparr>readFile := Some (unparse nested_ast), JSON_parse := (\<lambda>t. Inr example_pkg),
       JsonAsty_parse := (\<lambda>t. Inr nested_ast)\<rparr>"

section \<open>Invariants\<close>

text \<open>
  Every spec of an inventory that \<^verbatim>\<open>mixin\<close> built is the classification of its own
  section, name and specifier, and no name has two arrays.
\<close>

definition classified :: "env \<Rightarrow> argv \<Rightarrow> manifest \<Rightarrow> bool" where
  "classified env av m \<longleftrightarrow>
     distinct (map fst m)
     \<and> (\<forall>n sps sp. (n, sps) \<in> set m \<longrightarrow> sp \<in> set sps \<longrightarrow>
           classify env av (sect sp) n (sOld sp) = Inr sp)"

text \<open>
  The spec that the body of lines 201-232 leaves behind when it does not throw, as a
  function of the resolved version and the spec.
\<close>

definition decide :: "env \<Rightarrow> jsstring \<Rightarrow> spec \<Rightarrow> spec" where
  "decide env vN sp =
     (if state sp = Check then
        (if vOld sp = vN \<or> semver_gt env (vOld sp) vN = Inr True
         then sp\<lparr>vNew := vN, sNew := vN, state := Kept\<rparr>
         else sp\<lparr>vNew := vN, sNew := replace (sOld sp) (vOld sp) vN, state := Updated\<rparr>)
      else sp)"

text \<open>The resolved version of a name: the lookup of lines 181-184 and lines 188-199.\<close>

definition resolved :: "env \<Rightarrow> argv \<Rightarrow> jsstring \<Rightarrow> jsstring option" where
  "resolved env av name =
     (case lookup env name of
        Inl e \<Rightarrow> None
      | Inr r \<Rightarrow> (case resolve env av (fst r) (snd r) of Inl e \<Rightarrow> None | Inr v \<Rightarrow> Some v))"

text \<open>The inventory after the merge, entry by entry.\<close>

definition plan :: "env \<Rightarrow> argv \<Rightarrow> manifest \<Rightarrow> manifest" where
  "plan env av m =
     map (\<lambda>entry. (fst entry,
            case resolved env av (fst entry) of
              None \<Rightarrow> snd entry
            | Some v \<Rightarrow> map (decide env v) (snd entry))) m"

text \<open>The entries of an inventory in state updated, each with its name.\<close>

definition updated_entries :: "manifest \<Rightarrow> (jsstring \<times> spec) set" where
  "updated_entries m = {(n, sp). \<exists>sps. (n, sps) \<in> set m \<and> sp \<in> set sps \<and> state sp = Updated}"

text \<open>
  \<open>patched env U a a'\<close>: the tree \<open>a'\<close> is \<open>a\<close> but for nodes that the query selects
  for an entry of \<open>U\<close>, which hold that entry's new specifier.
\<close>

definition patched :: "env \<Rightarrow> (jsstring \<times> spec) set \<Rightarrow> ast \<Rightarrow> ast \<Rightarrow> bool" where
  "patched env U a a' \<longleftrightarrow>
     length a' = length a
     \<and> (\<forall>i<length a.
           a' ! i = a ! i
           \<or> (\<exists>n sp. (n, sp) \<in> U \<and> selects (sect sp) n (a ! i)
                \<and> a' ! i = node_set (a ! i) (JSON_stringify env (sNew sp)) (sNew sp)))"

text \<open>
  The entries that one pass of \<^verbatim>\<open>manifest[name].forEach\<close> moves to state updated.
\<close>

definition newly_updated :: "env \<Rightarrow> jsstring \<Rightarrow> jsstring \<Rightarrow> spec list \<Rightarrow> (jsstring \<times> spec) set" where
  "newly_updated env name vN sps =
     {(name, decide env vN sp) | sp. sp \<in> set sps \<and> state sp = Check \<and> state (decide env vN sp) = Updated}"

text \<open>
  What the loop over \<^verbatim>\<open>results\<close> keeps true of \<^verbatim>\<open>manifest\<close>, the tree and
  \<^verbatim>\<open>updates\<close>; \<open>a0\<close> is the tree as parsed.
\<close>

definition merge_inv :: "env \<Rightarrow> ast \<Rightarrow> manifest \<times> ast \<times> bool \<Rightarrow> bool" where
  "merge_inv env a0 vars \<longleftrightarrow>
     (case vars of (m, a, u) \<Rightarrow>
        distinct (map fst m) \<and> (u \<longleftrightarrow> updated_entries m \<noteq> {})
        \<and> patched env (updated_entries m) a0 a)"

text \<open>
  \<open>applied env av U a0 a\<close>: every update of \<open>U\<close> has been carried out. Its new
  specifier differs from the old one (line 215), and without \<^verbatim>\<open>argv.nop\<close> the query
  finds exactly one node for it in the tree as parsed (line 225), which in the tree \<open>a\<close>
  holds the new specifier of an entry of \<open>U\<close> with the same name and section.
\<close>

definition applied :: "env \<Rightarrow> argv \<Rightarrow> (jsstring \<times> spec) set \<Rightarrow> ast \<Rightarrow> ast \<Rightarrow> bool" where
  "applied env av U a0 a \<longleftrightarrow>
     (\<forall>n sp. (n, sp) \<in> U \<longrightarrow>
        sNew sp \<noteq> sOld sp
        \<and> (\<not> nop av \<longrightarrow>
             (\<exists>i sp'. execute a0 (sect sp) n = [i] \<and> (n, sp') \<in> U \<and> sect sp' = sect sp
                \<and> a ! i = node_set (a0 ! i) (JSON_stringify env (sNew sp')) (sNew sp'))))"

definition merge_inv2 :: "env \<Rightarrow> argv \<Rightarrow> ast \<Rightarrow> manifest \<times> ast \<times> bool \<Rightarrow> bool" where
  "merge_inv2 env av a0 vars \<longleftrightarrow>
     merge_inv env a0 vars
     \<and> (case vars of (m, a, u) \<Rightarrow> applied env av (updated_entries m) a0 a)"



text \<open>
  The manifest after a run, as \<^verbatim>\<open>JSON.parse\<close> reads it from the rewritten file: an
  entry that the run moved to state updated holds its new specifier, every other entry
  its old one. \<open>specifier_after\<close> is the specifier of one member, from the
  classification of lines 107-120 and the decision of lines 201-232.
\<close>

definition specifier_after :: "env \<Rightarrow> argv \<Rightarrow> jsstring \<Rightarrow> jsstring \<Rightarrow> jsstring \<Rightarrow> jsstring" where
  "specifier_after env av section name s =
     (case classify env av section name s of
        Inl e \<Rightarrow> s
      | Inr sp \<Rightarrow>
          (case resolved env av name of
             None \<Rightarrow> s
           | Some v \<Rightarrow> if state (decide env v sp) = Updated then sNew (decide env v sp) else s))"

definition pkg_after :: "env \<Rightarrow> argv \<Rightarrow> pkg \<Rightarrow> pkg" where
  "pkg_after env av pk section =
     (case pk section of
        None \<Rightarrow> None
      | Some members \<Rightarrow>
          Some (map (\<lambda>member. (fst member, specifier_after env av section (fst member) (snd member)))
                  members))"





section \<open>Lemmas: the specifier pattern\<close>

lemma operator_not_space: "is_operator c \<Longrightarrow> \<not> is_space c"
  by (auto simp: is_operator_def is_space_def)

lemma digit_not_space: "is_digit c \<Longrightarrow> \<not> is_space c"
  by (auto simp: is_digit_def is_space_def)

lemma digit_not_operator: "is_digit c \<Longrightarrow> \<not> is_operator c"
  by (auto simp: is_digit_def is_operator_def)

lemma digit_version_char: "is_digit c \<Longrightarrow> is_version_char c"
  by (auto simp: is_digit_def is_version_char_def is_space_def)

lemma space_not_version_char: "is_space c \<Longrightarrow> \<not> is_version_char c"
  by (simp add: is_version_char_def)

lemma dropWhile_spaces: "list_all is_space ws \<Longrightarrow> dropWhile is_space (ws @ r) = dropWhile is_space r"
  by (simp add: list_all_iff)

lemma takeWhile_spaces: "list_all is_space ws \<Longrightarrow> takeWhile is_version_char ws = []"
  by (cases ws) (auto simp: space_not_version_char)

lemma dropWhile_spaces': "list_all is_space ws \<Longrightarrow> dropWhile is_version_char ws = ws"
  by (cases ws) (auto simp: space_not_version_char)

lemma version_token_scan:
  assumes "is_version_token v" "list_all is_space ws"
  shows "takeWhile is_version_char (v @ ws) = v" "dropWhile is_version_char (v @ ws) = ws"
    "dropWhile is_space (v @ ws) = v @ ws"
  using assms
  by (auto simp: is_version_token_def list_all_iff takeWhile_spaces dropWhile_spaces' 
      digit_version_char digit_not_space takeWhile_append2 dropWhile_append2 split: list.splits)

lemma match_tail:
  assumes "is_version_token v" "list_all is_space ws"
  shows "(case takeWhile is_version_char (v @ ws) of [] \<Rightarrow> None
          | d # _ \<Rightarrow> if is_digit d \<and> list_all is_space (dropWhile is_version_char (v @ ws))
                     then Some (takeWhile is_version_char (v @ ws)) else None) = Some v"
proof -
  from assms(1) obtain d r where vd: "v = d # r" "is_digit d"
    by (auto simp: is_version_token_def split: list.splits)
  have "takeWhile is_version_char (v @ ws) = v" "dropWhile is_version_char (v @ ws) = ws"
    by (rule version_token_scan[OF assms])+
  then show ?thesis using vd assms(2) by simp
qed

lemma specifier_re_match:
  assumes "specifier_re s v"
  shows "specifier_match s = Some v"
proof -
  from assms obtain ws1 opr ws3 where s: "s = ws1 @ opr @ v @ ws3"
    and w1: "list_all is_space ws1" and w3: "list_all is_space ws3"
    and o: "opr = [] \<or> (\<exists>c ws2. opr = c # ws2 \<and> is_operator c \<and> list_all is_space ws2)"
    and v: "is_version_token v"
    unfolding specifier_re_def by blast
  from v obtain d r where vd: "v = d # r" "is_digit d"
    by (auto simp: is_version_token_def split: list.splits)
  have keep: "dropWhile is_space (v @ ws3) = v @ ws3"
    by (rule version_token_scan[OF v w3])
  let ?s1 = "dropWhile is_space s"
  let ?s2 = "(case ?s1 of [] \<Rightarrow> ?s1 | c # r \<Rightarrow> if is_operator c then dropWhile is_space r else ?s1)"
  have e2: "?s2 = v @ ws3"
    using o
  proof
    assume e: "opr = []"
    have "?s1 = d # r @ ws3"
      using s w1 keep vd e by (simp add: dropWhile_spaces)
    then show ?thesis using vd by (simp add: digit_not_operator)
  next
    assume "\<exists>c ws2. opr = c # ws2 \<and> is_operator c \<and> list_all is_space ws2"
    then obtain c ws2 where c: "opr = c # ws2" "is_operator c" "list_all is_space ws2" by blast
    have "dropWhile is_space (c # ws2 @ v @ ws3) = c # ws2 @ v @ ws3"
      using c(2) by (simp add: operator_not_space)
    then have "?s1 = c # ws2 @ v @ ws3"
      using s w1 c(1) by (simp add: dropWhile_spaces)
    moreover have "dropWhile is_space (ws2 @ v @ ws3) = v @ ws3"
      using c(3) keep by (simp add: dropWhile_spaces)
    ultimately show ?thesis using c(2) by simp
  qed
  show ?thesis
    unfolding specifier_match_def Let_def e2 by (rule match_tail[OF v w3])
qed

lemma specifier_match_re:
  assumes "specifier_match s = Some v"
  shows "specifier_re s v"
proof -
  let ?s1 = "dropWhile is_space s"
  let ?s2 = "(case ?s1 of [] \<Rightarrow> ?s1 | c # r \<Rightarrow> if is_operator c then dropWhile is_space r else ?s1)"
  let ?opr = "(case ?s1 of [] \<Rightarrow> [] | c # r \<Rightarrow> if is_operator c then c # takeWhile is_space r else [])"
  let ?m1 = "takeWhile is_version_char ?s2"
  let ?s3 = "dropWhile is_version_char ?s2"
  have m: "(case ?m1 of [] \<Rightarrow> None
          | d # _ \<Rightarrow> if is_digit d \<and> list_all is_space ?s3 then Some ?m1 else None) = Some v"
    using assms unfolding specifier_match_def Let_def .
  then have "?m1 \<noteq> []" by (cases ?m1) simp_all
  then obtain d r where dr: "?m1 = d # r" by (cases ?m1) simp_all
  have t: "is_digit d" "list_all is_space ?s3" "v = d # r"
    using m unfolding dr by (simp_all split: if_splits)
  have "s = takeWhile is_space s @ ?s1" by simp
  moreover have "?s1 = ?opr @ ?s2"
  proof (cases ?s1)
    case Nil
    show ?thesis unfolding Nil by simp
  next
    case (Cons c r)
    show ?thesis unfolding Cons by simp
  qed
  moreover have "?s2 = v @ ?s3"
    using dr t(3) by (metis takeWhile_dropWhile_id)
  ultimately have "s = takeWhile is_space s @ ?opr @ v @ ?s3"
    by metis
  moreover have "list_all is_space (takeWhile is_space s)"
    unfolding list_all_iff by (meson set_takeWhileD)
  moreover have "?opr = [] \<or> (\<exists>c ws2. ?opr = c # ws2 \<and> is_operator c \<and> list_all is_space ws2)"
  proof (cases ?s1)
    case Nil
    show ?thesis unfolding Nil by simp
  next
    case (Cons c r)
    have "list_all is_space (takeWhile is_space r)"
      unfolding list_all_iff by (meson set_takeWhileD)
    then show ?thesis unfolding Cons by simp
  qed
  moreover have "is_version_token v"
  proof -
    have "list_all is_version_char ?m1"
      unfolding list_all_iff by (meson set_takeWhileD)
    then show ?thesis unfolding dr using t by (simp add: is_version_token_def)
  qed
  ultimately show ?thesis
    using t(2) unfolding specifier_re_def by blast
qed

lemma specifier_match_iff: "specifier_match s = Some v \<longleftrightarrow> specifier_re s v"
  using specifier_match_re specifier_re_match by blast

section \<open>Lemmas: the inventory\<close>

lemma forEach_invariant:
  assumes "forEach f s xs = Inr s'" "P s"
    and "\<And>s x s'. x \<in> set xs \<Longrightarrow> P s \<Longrightarrow> f s x = Inr s' \<Longrightarrow> P s'"
  shows "P s'"
  using assms
proof (induction xs arbitrary: s)
  case Nil
  then show ?case by simp
next
  case (Cons x xs)
  from Cons.prems(1) obtain s1 where s1: "f s x = Inr s1" "forEach f s1 xs = Inr s'"
    by (auto split: sum.splits)
  have "P s1" by (rule Cons.prems(3)[OF _ Cons.prems(2) s1(1)]) simp
  show ?case
  proof (rule Cons.IH[OF s1(2) \<open>P s1\<close>])
    fix t y t' assume "y \<in> set xs" "P t" "f t y = Inr t'"
    then show "P t'" using Cons.prems(3)[of y t t'] by simp
  qed
qed

lemma classify_Inr:
  assumes "classify env av section module s = Inr sp"
  shows "sect sp = section" "sOld sp = s" "sNew sp = s" "vNew sp = vOld sp"
    "state sp = Ignored \<or> state sp = Skipped \<or> state sp = Check"
    "state sp = Check \<Longrightarrow> specifier_match s = Some (vOld sp)"
    "state sp \<noteq> Check \<Longrightarrow> vOld sp = s"
    "state sp = Ignored \<longleftrightarrow> selection env (patterns av) module = Inr Ignored"
    "state sp = Skipped \<Longrightarrow> specifier_match s = None"
proof -
  from assms obtain st where st: "selection env (patterns av) module = Inr st"
    by (auto simp: classify_def split: sum.splits)
  have "st = Todo \<or> st = Ignored"
    using st by (auto simp: selection_def split: list.splits sum.splits if_splits)
  then show "sect sp = section" "sOld sp = s" "sNew sp = s" "vNew sp = vOld sp"
    "state sp = Ignored \<or> state sp = Skipped \<or> state sp = Check"
    "state sp = Check \<Longrightarrow> specifier_match s = Some (vOld sp)"
    "state sp \<noteq> Check \<Longrightarrow> vOld sp = s"
    "state sp = Ignored \<longleftrightarrow> selection env (patterns av) module = Inr Ignored"
    "state sp = Skipped \<Longrightarrow> specifier_match s = None"
    using assms st by (auto simp: classify_def split: option.splits)
qed

lemma classify_Todo:
  assumes "selection env (patterns av) module = Inr Todo"
  shows "classify env av section module s =
     Inr (case specifier_match s of
            Some m1 \<Rightarrow> \<lparr>sect = section, sOld = s, vOld = m1, sNew = s, vNew = m1, state = Check\<rparr>
          | None \<Rightarrow> \<lparr>sect = section, sOld = s, vOld = s, sNew = s, vNew = s, state = Skipped\<rparr>)"
  using assms by (simp add: classify_def)

lemma insert_key_set: "set (insert_key k ks) = insert k (set ks)"
  by (induction ks) auto

lemma insert_key_distinct: "distinct ks \<Longrightarrow> k \<notin> set ks \<Longrightarrow> distinct (insert_key k ks)"
  by (induction ks) (auto simp: insert_key_set)

lemma set_key_set: "set (set_key ks k) = insert k (set ks)"
  by (auto simp: set_key_def insert_key_set)

lemma set_key_distinct: "distinct ks \<Longrightarrow> distinct (set_key ks k)"
  by (auto simp: set_key_def insert_key_distinct)

lemma checked_inner:
  "set (foldl (\<lambda>ks sp. if state sp = Check then set_key ks n else ks) ks sps) =
     set ks \<union> (if \<exists>sp\<in>set sps. state sp = Check then {n} else {})"
  "distinct ks \<Longrightarrow> distinct (foldl (\<lambda>ks sp. if state sp = Check then set_key ks n else ks) ks sps)"
  by (induction sps arbitrary: ks) (auto simp: set_key_set set_key_distinct)

lemma checked_outer:
  "set (foldl (\<lambda>ks entry. foldl (\<lambda>ks sp. if state sp = Check then set_key ks (fst entry) else ks) ks (snd entry)) ks m) =
     set ks \<union> {n. \<exists>sps sp. (n, sps) \<in> set m \<and> sp \<in> set sps \<and> state sp = Check}"
  "distinct ks \<Longrightarrow> distinct (foldl (\<lambda>ks entry. foldl (\<lambda>ks sp. if state sp = Check then set_key ks (fst entry) else ks) ks (snd entry)) ks m)"
proof (induction m arbitrary: ks)
  case Nil
  { case 1 show ?case by simp }
  { case 2 then show ?case by simp }
next
  case (Cons e m)
  { case 1 show ?case
      apply (cases e)
      apply (simp add: Cons.IH(1) checked_inner(1))
      apply auto
      done }
  { case 2 then show ?case by (simp add: Cons.IH(2) checked_inner(2)) }
qed

lemma set_checked:
  "set (checked m) = {n. \<exists>sps sp. (n, sps) \<in> set m \<and> sp \<in> set sps \<and> state sp = Check}"
  by (simp add: checked_def checked_outer(1))

lemma distinct_checked: "distinct (checked m)"
  by (simp add: checked_def checked_outer(2))

lemmas char_classes = js_def is_space_def is_digit_def is_operator_def is_version_char_def

lemma match_caret_1_2_0: "specifier_match (js ''^1.2.0'') = Some (js ''1.2.0'')"
  by (simp add: specifier_match_def char_classes)

lemma insert_entry_set: "set (insert_entry k v m) = insert (k, v) (set m)"
  by (induction m) auto

lemma insert_entry_distinct:
  "distinct (map fst m) \<Longrightarrow> k \<notin> fst ` set m \<Longrightarrow> distinct (map fst (insert_entry k v m))"
  by (induction m) (auto simp: insert_entry_set)

lemma set_specs_keys: "map fst (set_specs m n x) = map fst m"
  by (induction m) (auto simp: set_specs_def)

lemma push_distinct: "distinct (map fst m) \<Longrightarrow> distinct (map fst (push m k sp))"
  by (auto simp: push_def set_specs_keys map_of_eq_None_iff intro: insert_entry_distinct
      split: option.splits)

lemma push_mem:
  assumes "(n, sps) \<in> set (push m k sp)" "x \<in> set sps"
  shows "(n = k \<and> x = sp) \<or> (\<exists>sps0. (n, sps0) \<in> set m \<and> x \<in> set sps0)"
proof (cases "map_of m k")
  case None
  then show ?thesis using assms by (auto simp: push_def insert_entry_set)
next
  case (Some sps1)
  then have "(k, sps1) \<in> set m" by (rule map_of_SomeD)
  then show ?thesis using assms Some by (auto simp: push_def set_specs_def split: if_splits)
qed

lemma classified_push:
  assumes "classified env av m" "classify env av sec n s = Inr sp"
  shows "classified env av (push m n sp)"
proof -
  have "distinct (map fst (push m n sp))"
    using assms(1) by (simp add: push_distinct classified_def)
  moreover have "classify env av (sect x) k (sOld x) = Inr x"
    if "(k, sps) \<in> set (push m n sp)" "x \<in> set sps" for k sps x
    using push_mem[OF that] assms classify_Inr(1,2)[OF assms(2)]
    by (auto simp: classified_def)
  ultimately show ?thesis unfolding classified_def by blast
qed

lemma classified_mixin:
  assumes "mixin env av pk m sec = Inr m'" "classified env av m"
  shows "classified env av m'"
proof (cases "pk sec")
  case None
  then show ?thesis using assms by (simp add: mixin_def)
next
  case (Some members)
  then have "forEach (mixin_member env av sec) m members = Inr m'"
    using assms(1) by (simp add: mixin_def)
  then show ?thesis
  proof (rule forEach_invariant[where P = "classified env av"])
    show "classified env av m" by (rule assms(2))
  next
    fix s x s'
    assume "classified env av s" "mixin_member env av sec s x = Inr s'"
    then show "classified env av s'"
      by (auto simp: mixin_member_def split: sum.splits if_splits intro: classified_push)
  qed
qed

lemma classified_build:
  assumes "build_manifest env av pk = Inr m"
  shows "classified env av m"
  using assms unfolding build_manifest_def
proof (rule forEach_invariant[where P = "classified env av"])
  show "classified env av []" by (simp add: classified_def)
next
  fix s x s'
  assume "classified env av s" "mixin env av pk s x = Inr s'"
  then show "classified env av s'" by (rule classified_mixin[rotated])
qed

lemma glob_star: "glob [42] s"
  by (induction s) auto

lemma selection_nil: "selection env [] name = Inr Todo"
  by (simp add: selection_def)

lemma example_manifest:
  "build_manifest example_env example_argv example_pkg =
     Inr [(js ''left-pad'',
           [\<lparr>sect = js ''devDependencies'', sOld = js ''~1.2.0'', vOld = js ''1.2.0'',
              sNew = js ''~1.2.0'', vNew = js ''1.2.0'', state = Check\<rparr>,
            \<lparr>sect = js ''dependencies'', sOld = js ''^1.2.0'', vOld = js ''1.2.0'',
              sNew = js ''^1.2.0'', vNew = js ''1.2.0'', state = Check\<rparr>]),
          (js ''is-odd'',
           [\<lparr>sect = js ''dependencies'', sOld = js ''git+https://example/repo.git'',
              vOld = js ''git+https://example/repo.git'', sNew = js ''git+https://example/repo.git'',
              vNew = js ''git+https://example/repo.git'', state = Skipped\<rparr>])]"
  by (simp add: build_manifest_def sections_def mixin_def example_pkg_def mixin_member_def
        classify_def selection_def example_argv_def specifier_match_def char_classes
        object_prototype_def push_def set_specs_def precedes_def is_index_def)

section \<open>Lemmas: the version ordering of the concrete environment\<close>

lemma compare_nat_flip: "compare_nat b a = - compare_nat a b"
  by (simp add: compare_nat_def)





lemma split_on_chars:
  "x \<in> set s \<Longrightarrow> x \<noteq> c \<Longrightarrow> \<exists>p \<in> set (split_on c s). x \<in> set p"
proof (induction s)
  case Nil
  then show ?case by simp
next
  case (Cons y s)
  then show ?case by (cases "split_on c s") (auto split: if_splits)
qed

lemma identifiers_no_dollar:
  assumes "list_all is_identifier (split_on 46 s)"
  shows "36 \<notin> set s"
proof
  assume "36 \<in> set s"
  then obtain p where "p \<in> set (split_on 46 s)" "36 \<in> set p"
    using split_on_chars[of 36 s 46] by auto
  then have "is_identifier_char 36"
    using assms by (auto simp: list_all_iff is_identifier_def)
  then show False by (simp add: is_identifier_char_def is_digit_def)
qed

lemma numerics_no_dollar:
  assumes "list_all numeric (split_on 46 s)"
  shows "36 \<notin> set s"
proof
  assume "36 \<in> set s"
  then obtain p where "p \<in> set (split_on 46 s)" "36 \<in> set p"
    using split_on_chars[of 36 s 46] by auto
  then have "is_digit 36"
    using assms by (auto simp: list_all_iff numeric_def)
  then show False by (simp add: is_digit_def)
qed

lemma tagged_no_dollar:
  assumes "t = [] \<or> list_all is_identifier (split_on 46 (tl t))" "t = [] \<or> hd t \<noteq> 36"
  shows "36 \<notin> set t"
proof (cases t)
  case Nil
  then show ?thesis by simp
next
  case (Cons c r)
  then show ?thesis using assms identifiers_no_dollar[of r] by auto
qed

lemma dropWhile_hd: "dropWhile (\<lambda>c. c \<noteq> k) s = [] \<or> hd (dropWhile (\<lambda>c. c \<noteq> k) s) = k"
  using hd_dropWhile[of "\<lambda>c. c \<noteq> k" s] by auto

lemma parse_version_no_dollar:
  assumes "parse_version s = Some v"
  shows "36 \<notin> set s"
proof -
  let ?plain = "takeWhile (\<lambda>c. c \<noteq> 43) s"
  let ?build = "dropWhile (\<lambda>c. c \<noteq> 43) s"
  let ?main = "takeWhile (\<lambda>c. c \<noteq> 45) ?plain"
  let ?pre = "dropWhile (\<lambda>c. c \<noteq> 45) ?plain"
  have c: "(?build = [] \<or> list_all is_identifier (split_on 46 (tl ?build)))"
    "(?pre = [] \<or> list_all is_identifier (split_on 46 (tl ?pre)))"
    "list_all numeric (split_on 46 ?main)"
    using assms unfolding parse_version_def Let_def
    by (auto split: if_splits list.splits)
  have "36 \<notin> set ?build"
    using tagged_no_dollar[OF c(1)] dropWhile_hd[of 43 s] by auto
  moreover have "36 \<notin> set ?pre"
    using tagged_no_dollar[OF c(2)] dropWhile_hd[of 45 ?plain] by auto
  moreover have "36 \<notin> set ?main"
    by (rule numerics_no_dollar[OF c(3)])
  moreover have "set s = set ?main \<union> set ?pre \<union> set ?build"
    by (metis set_append takeWhile_dropWhile_id)
  ultimately show ?thesis by simp
qed


lemma gt_no_dollar: "gt a b = Inr r \<Longrightarrow> 36 \<notin> set a \<and> 36 \<notin> set b"
  using parse_version_no_dollar
  by (auto simp: gt_def compare_def split: option.splits sum.splits)


lemma example_semver_validates: "semver_validates example_env"
  unfolding semver_validates_def using gt_no_dollar by (simp add: example_env_def)

section \<open>Lemmas: the substitution\<close>

lemma substitution_plain: "36 \<notin> set r \<Longrightarrow> substitution m b a r = r"
  by (induction m b a r rule: substitution.induct) auto

lemma find_first_at:
  "pat \<noteq> [] \<Longrightarrow> hd pat \<notin> set pre \<Longrightarrow> find_first pat (pre @ pat @ post) = Some (pre, post)"
proof (induction pre)
  case Nil
  then show ?case by (cases pat) auto
next
  case (Cons c pre)
  then have "take (length pat) (c # pre @ pat @ post) \<noteq> pat"
    by (cases pat) auto
  then show ?case using Cons by simp
qed

lemma replace_at:
  "pat \<noteq> [] \<Longrightarrow> hd pat \<notin> set pre \<Longrightarrow> 36 \<notin> set r \<Longrightarrow>
     replace (pre @ pat @ post) pat r = pre @ r @ post"
  by (simp add: replace_def find_first_at substitution_plain)

lemma match_split:
  assumes "specifier_match s = Some v"
  shows "\<exists>pre post. s = pre @ v @ post \<and> list_all (\<lambda>c. is_space c \<or> is_operator c) pre
           \<and> list_all is_space post \<and> v \<noteq> [] \<and> hd v \<notin> set pre"
proof -
  from assms have "specifier_re s v" by (simp add: specifier_match_iff)
  then obtain ws1 opr ws3 where s: "s = ws1 @ opr @ v @ ws3"
    and w1: "list_all is_space ws1" and w3: "list_all is_space ws3"
    and o: "opr = [] \<or> (\<exists>c ws2. opr = c # ws2 \<and> is_operator c \<and> list_all is_space ws2)"
    and v: "is_version_token v"
    unfolding specifier_re_def by blast
  from v obtain d r where vd: "v = d # r" "is_digit d"
    by (auto simp: is_version_token_def split: list.splits)
  have p: "list_all (\<lambda>c. is_space c \<or> is_operator c) (ws1 @ opr)"
    using w1 o by (auto simp: list_all_iff)
  then have "d \<notin> set (ws1 @ opr)"
    using vd(2) digit_not_space digit_not_operator unfolding list_all_iff by blast
  then show ?thesis
    using s p w3 vd by (intro exI[of _ "ws1 @ opr"] exI[of _ ws3]) simp
qed

lemma replace_specifier:
  assumes "specifier_match s = Some v" "36 \<notin> set r"
  shows "\<exists>pre post. s = pre @ v @ post \<and> list_all (\<lambda>c. is_space c \<or> is_operator c) pre
           \<and> list_all is_space post \<and> replace s v r = pre @ r @ post"
proof -
  from match_split[OF assms(1)] obtain pre post where
    s: "s = pre @ v @ post" and p: "list_all (\<lambda>c. is_space c \<or> is_operator c) pre"
    "list_all is_space post" and v: "v \<noteq> []" "hd v \<notin> set pre"
    by blast
  have "replace s v r = pre @ r @ post"
    unfolding s by (rule replace_at[OF v assms(2)])
  then show ?thesis using s p by blast
qed

section \<open>Lemmas: the merge\<close>

lemma decide_not_check: "state sp \<noteq> Check \<Longrightarrow> decide env v sp = sp"
  by (simp add: decide_def)

lemma decide_state:
  "state sp = Check \<Longrightarrow> state (decide env v sp) = Kept \<or> state (decide env v sp) = Updated"
  "state sp = Check \<Longrightarrow> vNew (decide env v sp) = v"
  "sect (decide env v sp) = sect sp" "sOld (decide env v sp) = sOld sp"
  "vOld (decide env v sp) = vOld sp"
  by (simp_all add: decide_def)

lemma patched_refl: "patched env U a a"
  by (simp add: patched_def)

lemma patched_mono: "patched env U a a' \<Longrightarrow> U \<subseteq> V \<Longrightarrow> patched env V a a'"
  unfolding patched_def by blast

lemma selects_node_set: "selects s n (node_set x t v) = selects s n x"
  by (cases x) simp_all

lemma node_set_twice: "node_set (node_set x t v) t' v' = node_set x t' v'"
  by (cases x) simp_all

lemma patched_trans:
  assumes "patched env U a b" "patched env U b c"
  shows "patched env U a c"
  unfolding patched_def
proof (intro conjI allI impI)
  show "length c = length a" using assms by (simp add: patched_def)
next
  fix i assume i: "i < length a"
  then have ib: "i < length b" using assms(1) by (simp add: patched_def)
  from assms(1) i consider "b ! i = a ! i"
    | n sp where "(n, sp) \<in> U" "selects (sect sp) n (a ! i)"
        "b ! i = node_set (a ! i) (JSON_stringify env (sNew sp)) (sNew sp)"
    unfolding patched_def by blast
  then show "c ! i = a ! i \<or> (\<exists>n sp. (n, sp) \<in> U \<and> selects (sect sp) n (a ! i)
                \<and> c ! i = node_set (a ! i) (JSON_stringify env (sNew sp)) (sNew sp))"
  proof cases
    case 1
    then show ?thesis using assms(2) ib unfolding patched_def by metis
  next
    case 2
    from assms(2) ib consider "c ! i = b ! i"
      | n' sp' where "(n', sp') \<in> U" "selects (sect sp') n' (b ! i)"
        "c ! i = node_set (b ! i) (JSON_stringify env (sNew sp')) (sNew sp')"
      unfolding patched_def by blast
    then show ?thesis
    proof cases
      case 1
      then show ?thesis using 2 by auto
    next
      case 2
      note c2 = this
      have "selects (sect sp') n' (a ! i)"
        using c2(2) \<open>b ! i = node_set (a ! i) (JSON_stringify env (sNew sp)) (sNew sp)\<close>
        by (simp add: selects_node_set)
      moreover have "c ! i = node_set (a ! i) (JSON_stringify env (sNew sp')) (sNew sp')"
        using c2(3) \<open>b ! i = node_set (a ! i) (JSON_stringify env (sNew sp)) (sNew sp)\<close>
        by (simp add: node_set_twice)
      ultimately show ?thesis using c2(1) by blast
    qed
  qed
qed

lemma execute_single:
  assumes "execute a s n = [i]"
  shows "i < length a" "selects s n (a ! i)"
proof -
  have "i \<in> set (filter (\<lambda>i. selects s n (a ! i)) [0..<length a])"
    using assms by (simp add: execute_def)
  then show "i < length a" "selects s n (a ! i)" by auto
qed

lemma patched_set:
  assumes "execute a (sect sp) n = [i]" "(n, sp) \<in> U"
  shows "patched env U a (a[i := node_set (a ! i) (JSON_stringify env (sNew sp)) (sNew sp)])"
  unfolding patched_def
  using execute_single[OF assms(1)] assms(2)
  by (auto simp: nth_list_update)

lemma merge_spec_Inr:
  assumes "merge_spec env av name vN sp a u = Inr (sp', a', u')"
  shows "sp' = decide env vN sp"
    "u' \<longleftrightarrow> u \<or> (state sp = Check \<and> state sp' = Updated)"
    "patched env (if state sp = Check \<and> state sp' = Updated then {(name, sp')} else {}) a a'"
    "nop av \<Longrightarrow> a' = a"
proof -
  show "sp' = decide env vN sp"
    using assms
    by (auto simp: merge_spec_def decide_def Let_def split: if_splits sum.splits bool.splits list.splits)
  show "u' \<longleftrightarrow> u \<or> (state sp = Check \<and> state sp' = Updated)"
    using assms
    by (auto simp: merge_spec_def Let_def split: if_splits sum.splits bool.splits list.splits)
  show "nop av \<Longrightarrow> a' = a"
    using assms
    by (auto simp: merge_spec_def Let_def split: if_splits sum.splits bool.splits list.splits)
  show "patched env (if state sp = Check \<and> state sp' = Updated then {(name, sp')} else {}) a a'"
  proof (cases "a' = a")
    case True
    then show ?thesis by (simp add: patched_refl)
  next
    case False
    then obtain i where i: "execute a (sect sp') name = [i]" "state sp = Check" "state sp' = Updated"
      "a' = a[i := node_set (a ! i) (JSON_stringify env (sNew sp')) (sNew sp')]"
      using assms
      by (auto simp: merge_spec_def Let_def split: if_splits sum.splits bool.splits list.splits)
    then show ?thesis using patched_set[OF i(1), of "{(name, sp')}" env] by simp
  qed
qed

lemma newly_updated_Cons:
  "newly_updated env name vN (sp # sps) =
     (if state sp = Check \<and> state (decide env vN sp) = Updated then {(name, decide env vN sp)} else {})
     \<union> newly_updated env name vN sps"
  by (auto simp: newly_updated_def)

lemma merge_specs_Inr:
  assumes "merge_specs env av name vN sps a u = Inr (sps', a', u')"
  shows "sps' = map (decide env vN) sps"
    "u' \<longleftrightarrow> u \<or> newly_updated env name vN sps \<noteq> {}"
    "patched env (newly_updated env name vN sps) a a'"
    "nop av \<Longrightarrow> a' = a"
  using assms
proof (induction sps arbitrary: a u sps')
  case Nil
  { case 1 then show ?case by simp }
  { case 2 then show ?case by (simp add: newly_updated_def) }
  { case 3 then show ?case by (simp add: patched_refl) }
  { case 4 then show ?case by simp }
next
  case (Cons sp sps)
  { case 1
    then obtain sp1 a1 u1 sps1 where
      h: "merge_spec env av name vN sp a u = Inr (sp1, a1, u1)"
      and t: "merge_specs env av name vN sps a1 u1 = Inr (sps1, a', u')" and e: "sps' = sp1 # sps1"
      by (auto split: sum.splits)
    show ?case using merge_spec_Inr(1)[OF h] Cons.IH(1)[OF t] e by simp }
  { case 2
    then obtain sp1 a1 u1 sps1 where
      h: "merge_spec env av name vN sp a u = Inr (sp1, a1, u1)"
      and t: "merge_specs env av name vN sps a1 u1 = Inr (sps1, a', u')" and e: "sps' = sp1 # sps1"
      by (auto split: sum.splits)
    show ?case
      using merge_spec_Inr(1,2)[OF h] Cons.IH(2)[OF t]
      by (auto simp: newly_updated_Cons) }
  { case 3
    then obtain sp1 a1 u1 sps1 where
      h: "merge_spec env av name vN sp a u = Inr (sp1, a1, u1)"
      and t: "merge_specs env av name vN sps a1 u1 = Inr (sps1, a', u')" and e: "sps' = sp1 # sps1"
      by (auto split: sum.splits)
    have "patched env (newly_updated env name vN (sp # sps)) a a1"
      using merge_spec_Inr(1,3)[OF h]
      by (auto simp: newly_updated_Cons intro: patched_mono)
    moreover have "patched env (newly_updated env name vN (sp # sps)) a1 a'"
      using Cons.IH(3)[OF t] by (auto simp: newly_updated_Cons intro: patched_mono)
    ultimately show ?case by (rule patched_trans) }
  { case 4
    then obtain sp1 a1 u1 sps1 where
      h: "merge_spec env av name vN sp a u = Inr (sp1, a1, u1)"
      and t: "merge_specs env av name vN sps a1 u1 = Inr (sps1, a', u')" and e: "sps' = sp1 # sps1"
      by (auto split: sum.splits)
    show ?case using merge_spec_Inr(4)[OF h] Cons.IH(4)[OF 4(1) t] 4(1) by simp }
qed

lemma distinct_map_of:
  "distinct (map fst m) \<Longrightarrow> (k, y) \<in> set m \<Longrightarrow> map_of m k = Some y"
  by simp

lemma set_specs_mem:
  assumes "distinct (map fst m)" "map_of m n = Some sps"
  shows "(k, y) \<in> set (set_specs m n x) \<longleftrightarrow> (k = n \<and> y = x) \<or> (k \<noteq> n \<and> (k, y) \<in> set m)"
proof -
  have "(n, sps) \<in> set m" using assms(2) by (rule map_of_SomeD)
  then show ?thesis
    unfolding set_specs_def by (auto simp: image_iff)
qed

lemma updated_entries_set_specs:
  assumes "distinct (map fst m)" "map_of m n = Some sps"
  shows "updated_entries (set_specs m n (map (decide env v) sps)) =
           updated_entries m \<union> newly_updated env n v sps"
proof (intro set_eqI iffI)
  fix x assume "x \<in> updated_entries (set_specs m n (map (decide env v) sps))"
  then obtain k sp' y where x: "x = (k, sp')" "(k, y) \<in> set (set_specs m n (map (decide env v) sps))"
    "sp' \<in> set y" "state sp' = Updated"
    by (auto simp: updated_entries_def)
  from x(2) consider "k = n" "y = map (decide env v) sps" | "k \<noteq> n" "(k, y) \<in> set m"
    unfolding set_specs_mem[OF assms] by blast
  then show "x \<in> updated_entries m \<union> newly_updated env n v sps"
  proof cases
    case 1
    then obtain sp where sp: "sp \<in> set sps" "sp' = decide env v sp" using x(3) by auto
    show ?thesis
    proof (cases "state sp = Check")
      case True
      then show ?thesis using sp x 1 by (auto simp: newly_updated_def)
    next
      case False
      then have "sp' = sp" using sp by (simp add: decide_not_check)
      moreover have "(n, sps) \<in> set m" using assms(2) by (rule map_of_SomeD)
      ultimately show ?thesis using sp x 1 by (auto simp: updated_entries_def)
    qed
  next
    case 2
    then show ?thesis using x by (auto simp: updated_entries_def)
  qed
next
  fix x assume "x \<in> updated_entries m \<union> newly_updated env n v sps"
  then consider "x \<in> updated_entries m" | "x \<in> newly_updated env n v sps" by blast
  then show "x \<in> updated_entries (set_specs m n (map (decide env v) sps))"
  proof cases
    case 1
    then obtain k sp y where x: "x = (k, sp)" "(k, y) \<in> set m" "sp \<in> set y" "state sp = Updated"
      by (auto simp: updated_entries_def)
    show ?thesis
    proof (cases "k = n")
      case True
      then have "y = sps" using distinct_map_of[OF assms(1) x(2)] assms(2) by simp
      then have "sp \<in> set (map (decide env v) sps)"
        using x(3,4) decide_not_check[of sp env v] by (force simp: image_iff)
      then show ?thesis
        using x True set_specs_mem[OF assms, of n "map (decide env v) sps" "map (decide env v) sps"]
        by (auto simp: updated_entries_def)
    next
      case False
      then show ?thesis
        using x set_specs_mem[OF assms, of k y "map (decide env v) sps"]
        by (auto simp: updated_entries_def)
    qed
  next
    case 2
    then obtain sp where "x = (n, decide env v sp)" "sp \<in> set sps" "state (decide env v sp) = Updated"
      by (auto simp: newly_updated_def)
    then show ?thesis
      using set_specs_mem[OF assms, of n "map (decide env v) sps" "map (decide env v) sps"]
      by (auto simp: updated_entries_def)
  qed
qed

lemma merge_result_Inr:
  assumes "merge_result env av (m, a, u) r = Inr (m', a', u')"
  shows "\<exists>v sps. resolve env av (fst r) (snd r) = Inr v \<and> map_of m (fst r) = Some sps
           \<and> m' = set_specs m (fst r) (map (decide env v) sps)
           \<and> (u' \<longleftrightarrow> u \<or> newly_updated env (fst r) v sps \<noteq> {})
           \<and> patched env (newly_updated env (fst r) v sps) a a'
           \<and> (nop av \<longrightarrow> a' = a)"
proof -
  from assms obtain v sps sps1 where
    r: "resolve env av (fst r) (snd r) = Inr v" and l: "map_of m (fst r) = Some sps"
    and s: "merge_specs env av (fst r) v sps a u = Inr (sps1, a', u')"
    and m': "m' = set_specs m (fst r) sps1"
    by (auto simp: merge_result_def split: sum.splits option.splits)
  show ?thesis
    using r l m' merge_specs_Inr[OF s] by auto
qed

lemma merge_inv_step:
  assumes "merge_result env av vars r = Inr vars'" "merge_inv env a0 vars"
  shows "merge_inv env a0 vars'"
proof -
  obtain m a u where v: "vars = (m, a, u)" by (cases vars)
  obtain m' a' u' where v': "vars' = (m', a', u')" by (cases vars')
  from merge_result_Inr[OF assms(1)[unfolded v v']] obtain vN sps where
    l: "map_of m (fst r) = Some sps"
    and m': "m' = set_specs m (fst r) (map (decide env vN) sps)"
    and u': "u' \<longleftrightarrow> u \<or> newly_updated env (fst r) vN sps \<noteq> {}"
    and p: "patched env (newly_updated env (fst r) vN sps) a a'"
    by blast
  have d: "distinct (map fst m)" and u: "u \<longleftrightarrow> updated_entries m \<noteq> {}"
    and p0: "patched env (updated_entries m) a0 a"
    using assms(2) by (simp_all add: merge_inv_def v)
  have e: "updated_entries m' = updated_entries m \<union> newly_updated env (fst r) vN sps"
    unfolding m' by (rule updated_entries_set_specs[OF d l])
  have "patched env (updated_entries m') a0 a'"
    by (rule patched_trans[OF patched_mono[OF p0] patched_mono[OF p]]) (simp_all add: e)
  moreover have "u' \<longleftrightarrow> updated_entries m' \<noteq> {}" using u u' e by auto
  moreover have "distinct (map fst m')" using d by (simp add: m' set_specs_keys)
  ultimately show ?thesis by (simp add: merge_inv_def v')
qed

lemma merge_inv_forEach:
  assumes "forEach (merge_result env av) vars rs = Inr vars'" "merge_inv env a0 vars"
  shows "merge_inv env a0 vars'"
  using assms(1,2)
proof (rule forEach_invariant[where P = "merge_inv env a0"])
  fix s x s' assume "merge_inv env a0 s" "merge_result env av s x = Inr s'"
  then show "merge_inv env a0 s'" by (rule merge_inv_step[rotated])
qed

lemma mapLimit_Inr:
  "mapLimit f xs = Inr ys \<Longrightarrow> list_all2 (\<lambda>x y. f x = Inr y) xs ys"
proof (induction xs arbitrary: ys)
  case Nil
  then show ?case by simp
next
  case (Cons x xs)
  then show ?case by (auto split: sum.splits)
qed

lemma lookup_results:
  assumes "mapLimit (lookup env) names = Inr rs"
  shows "map fst rs = names" "\<forall>r\<in>set rs. lookup env (fst r) = Inr r"
proof -
  have a: "list_all2 (\<lambda>x y. lookup env x = Inr y) names rs"
    by (rule mapLimit_Inr[OF assms])
  have f: "lookup env x = Inr y \<Longrightarrow> fst y = x" for x y
    by (auto simp: lookup_def split: sum.splits)
  show "map fst rs = names"
    using a f by (induction names rs rule: list_all2_induct) auto
  show "\<forall>r\<in>set rs. lookup env (fst r) = Inr r"
    using a f by (induction names rs rule: list_all2_induct) auto
qed

lemma merge_results_manifest:
  assumes "forEach (merge_result env av) (m, a, u) rs = Inr (m', a', u')"
    and "distinct (map fst m)" "distinct (map fst rs)"
    and "\<forall>r\<in>set rs. lookup env (fst r) = Inr r"
  shows "m' = map (\<lambda>entry. (fst entry,
                 if fst entry \<in> fst ` set rs then
                   (case resolved env av (fst entry) of
                      None \<Rightarrow> snd entry
                    | Some v \<Rightarrow> map (decide env v) (snd entry))
                 else snd entry)) m"
  using assms
proof (induction rs arbitrary: m a u)
  case Nil
  then show ?case by (simp add: map_idI)
next
  case (Cons r rs)
  from Cons.prems(1) obtain m1 a1 u1 where
    h: "merge_result env av (m, a, u) r = Inr (m1, a1, u1)"
    and t: "forEach (merge_result env av) (m1, a1, u1) rs = Inr (m', a', u')"
    by (auto split: sum.splits)
  from merge_result_Inr[OF h] obtain v sps where
    r: "resolve env av (fst r) (snd r) = Inr v" and l: "map_of m (fst r) = Some sps"
    and m1: "m1 = set_specs m (fst r) (map (decide env v) sps)"
    by blast
  have rv: "resolved env av (fst r) = Some v"
    using Cons.prems(4) r by (simp add: resolved_def)
  have d1: "distinct (map fst m1)" using Cons.prems(2) by (simp add: m1 set_specs_keys)
  have nr: "fst r \<notin> fst ` set rs" using Cons.prems(3) by auto
  have ih: "m' = map (\<lambda>entry. (fst entry,
                 if fst entry \<in> fst ` set rs then
                   (case resolved env av (fst entry) of
                      None \<Rightarrow> snd entry
                    | Some v \<Rightarrow> map (decide env v) (snd entry))
                 else snd entry)) m1"
    using Cons.IH[OF t d1] Cons.prems(3,4) by simp
  have sps: "snd entry = sps" if "entry \<in> set m" "fst entry = fst r" for entry
  proof -
    have "(fst entry, snd entry) \<in> set m" using that(1) by simp
    from distinct_map_of[OF Cons.prems(2) this] show ?thesis using that(2) l by simp
  qed
  show ?case
    unfolding ih m1 set_specs_def map_map
    by (rule map_cong) (auto simp: rv nr sps)
qed

section \<open>Lemmas: the run\<close>

lemma merged_Inr:
  assumes "merged env av pkgData = Inr (m', a', u')"
  obtains pk a0 m0 rs where
    "JSON_parse env pkgData = Inr pk"
    "JsonAsty_parse env pkgData = Inr a0" "build_manifest env av pk = Inr m0"
    "mapLimit (lookup env) (checked m0) = Inr rs"
    "forEach (merge_result env av) (m0, a0, False) rs = Inr (m', a', u')"
proof -
  from assms obtain pk where 2: "JSON_parse env pkgData = Inr pk"
    by (auto simp: merged_def split: sum.splits)
  from assms 2 obtain a0 where 3: "JsonAsty_parse env pkgData = Inr a0"
    by (auto simp: merged_def split: sum.splits)
  from assms 2 3 obtain m0 where 4: "build_manifest env av pk = Inr m0"
    by (auto simp: merged_def split: sum.splits)
  from assms 2 3 4 obtain rs where 5: "mapLimit (lookup env) (checked m0) = Inr rs"
    by (auto simp: merged_def split: sum.splits)
  from assms 2 3 4 5 have
    6: "forEach (merge_result env av) (m0, a0, False) rs = Inr (m', a', u')"
    by (simp add: merged_def)
  show ?thesis by (rule that[OF 2 3 4 5 6])
qed

lemma merged_steps:
  assumes "JSON_parse env pkgData = Inr pk"
    "JsonAsty_parse env pkgData = Inr a0" "build_manifest env av pk = Inr m0"
    "mapLimit (lookup env) (checked m0) = Inr rs"
  shows "merged env av pkgData = forEach (merge_result env av) (m0, a0, False) rs"
  using assms by (simp add: merged_def)

lemma run_on_merged:
  assumes "run_on env av pkgData = Inr out"
  obtains a' where "merged env av pkgData = Inr (out_manifest out, a', out_updates out)"
    "out_written out = (if out_updates out \<and> \<not> nop av then Some (unparse a') else None)"
proof -
  from assms obtain m' a' u' where m: "merged env av pkgData = Inr (m', a', u')"
    by (auto simp: run_on_def split: sum.splits)
  with assms have
    "out = \<lparr>out_manifest = m', out_updates = u',
            out_written = (if u' \<and> \<not> nop av then Some (unparse a') else None)\<rparr>"
    by (simp add: run_on_def)
  then have "out_manifest out = m'" "out_updates out = u'"
    "out_written out = (if out_updates out \<and> \<not> nop av then Some (unparse a') else None)"
    by simp_all
  then show ?thesis using that[of a'] m by simp
qed

lemma run_on_Inr:
  assumes "run_on env av pkgData = Inr out"
  obtains pk a0 m0 rs a' where
    "JSON_parse env pkgData = Inr pk"
    "JsonAsty_parse env pkgData = Inr a0" "build_manifest env av pk = Inr m0"
    "mapLimit (lookup env) (checked m0) = Inr rs"
    "forEach (merge_result env av) (m0, a0, False) rs = Inr (out_manifest out, a', out_updates out)"
    "out_written out = (if out_updates out \<and> \<not> nop av then Some (unparse a') else None)"
proof -
  from assms obtain a' where m: "merged env av pkgData = Inr (out_manifest out, a', out_updates out)"
    and w: "out_written out = (if out_updates out \<and> \<not> nop av then Some (unparse a') else None)"
    by (rule run_on_merged)
  from m show ?thesis
    by (rule merged_Inr) (rule that[OF _ _ _ _ _ w])
qed

lemma run_Inr:
  assumes "run env av = Inr out"
  obtains pkgData pk a0 m0 rs a' where
    "readFile env = Some pkgData" "JSON_parse env pkgData = Inr pk"
    "JsonAsty_parse env pkgData = Inr a0" "build_manifest env av pk = Inr m0"
    "mapLimit (lookup env) (checked m0) = Inr rs"
    "forEach (merge_result env av) (m0, a0, False) rs = Inr (out_manifest out, a', out_updates out)"
    "out_written out = (if out_updates out \<and> \<not> nop av then Some (unparse a') else None)"
proof -
  from assms obtain pkgData where 1: "readFile env = Some pkgData"
    and r: "run_on env av pkgData = Inr out"
    by (auto simp: run_def split: option.splits)
  show ?thesis
    by (rule run_on_Inr[OF r]) (rule that[OF 1])
qed

lemma classified_states:
  assumes "classified env av m" "(n, sps) \<in> set m" "sp \<in> set sps"
  shows "state sp = Ignored \<or> state sp = Skipped \<or> state sp = Check"
    "state sp = Check \<Longrightarrow> specifier_match (sOld sp) = Some (vOld sp)"
    "sNew sp = sOld sp"
proof -
  have c: "classify env av (sect sp) n (sOld sp) = Inr sp"
    using assms unfolding classified_def by blast
  show "state sp = Ignored \<or> state sp = Skipped \<or> state sp = Check"
    by (rule classify_Inr(5)[OF c])
  show "state sp = Check \<Longrightarrow> specifier_match (sOld sp) = Some (vOld sp)"
    by (rule classify_Inr(6)[OF c])
  show "sNew sp = sOld sp" using classify_Inr(2,3)[OF c] by simp
qed

lemma classified_no_updates:
  assumes "classified env av m"
  shows "updated_entries m = {}"
proof -
  have "state sp \<noteq> Updated" if "(n, sps) \<in> set m" "sp \<in> set sps" for n sps sp
    using classified_states(1)[OF assms that] by auto
  then show ?thesis unfolding updated_entries_def by blast
qed

lemma merge_inv_initial:
  assumes "classified env av m"
  shows "merge_inv env a (m, a, False)"
proof -
  have "distinct (map fst m)" using assms by (simp add: classified_def)
  then show ?thesis
    by (simp add: merge_inv_def classified_no_updates[OF assms] patched_refl)
qed

lemma run_plan:
  assumes "build_manifest env av pk = Inr m0"
    and "mapLimit (lookup env) (checked m0) = Inr rs"
    and "forEach (merge_result env av) (m0, a0, False) rs = Inr (m', a', u')"
  shows "m' = plan env av m0"
proof -
  have c: "classified env av m0" by (rule classified_build[OF assms(1)])
  then have d: "distinct (map fst m0)" by (simp add: classified_def)
  note l = lookup_results[OF assms(2)]
  have dr: "distinct (map fst rs)" by (simp add: l(1) distinct_checked)
  have f: "fst ` set rs = set (checked m0)" using l(1) by (metis set_map)
  have m': "m' = map (\<lambda>entry. (fst entry,
                 if fst entry \<in> fst ` set rs then
                   (case resolved env av (fst entry) of
                      None \<Rightarrow> snd entry
                    | Some v \<Rightarrow> map (decide env v) (snd entry))
                 else snd entry)) m0"
    by (rule merge_results_manifest[OF assms(3) d dr l(2)])
  show ?thesis
    unfolding m' plan_def
  proof (rule map_cong[OF refl])
    fix entry assume e: "entry \<in> set m0"
    show "(fst entry,
           if fst entry \<in> fst ` set rs then
             (case resolved env av (fst entry) of None \<Rightarrow> snd entry
              | Some v \<Rightarrow> map (decide env v) (snd entry))
           else snd entry) =
          (fst entry,
           case resolved env av (fst entry) of None \<Rightarrow> snd entry
           | Some v \<Rightarrow> map (decide env v) (snd entry))"
    proof (cases "fst entry \<in> fst ` set rs")
      case True
      then show ?thesis by simp
    next
      case False
      then have "fst entry \<notin> set (checked m0)" using f by simp
      then have "\<forall>sp\<in>set (snd entry). state sp \<noteq> Check"
        using e unfolding set_checked by (cases entry) auto
      then have "map (decide env v) (snd entry) = snd entry" for v
        by (simp add: map_idI decide_not_check)
      then show ?thesis using False by (simp split: option.splits)
    qed
  qed
qed

lemma classify_nop: "classify env (av\<lparr>nop := b\<rparr>) = classify env av"
  by (intro ext) (simp add: classify_def)

lemma build_manifest_nop: "build_manifest env (av\<lparr>nop := b\<rparr>) pk = build_manifest env av pk"
proof -
  have "mixin_member env (av\<lparr>nop := b\<rparr>) = mixin_member env av"
    by (intro ext) (simp add: mixin_member_def classify_nop)
  then have "mixin env (av\<lparr>nop := b\<rparr>) = mixin env av"
    by (intro ext) (simp add: mixin_def split: option.splits)
  then show ?thesis by (simp add: build_manifest_def)
qed

lemma resolve_nop: "resolve env (av\<lparr>nop := b\<rparr>) = resolve env av"
  by (intro ext) (simp add: resolve_def)

lemma merge_spec_nop:
  assumes "merge_spec env av n v sp a u = Inr (sp', a', u')"
  shows "merge_spec env (av\<lparr>nop := True\<rparr>) n v sp b u = Inr (sp', b, u')"
  using assms
  by (auto simp: merge_spec_def Let_def split: if_splits sum.splits bool.splits list.splits)

lemma merge_specs_nop:
  assumes "merge_specs env av n v sps a u = Inr (sps', a', u')"
  shows "merge_specs env (av\<lparr>nop := True\<rparr>) n v sps b u = Inr (sps', b, u')"
  using assms
proof (induction sps arbitrary: a u sps')
  case Nil
  then show ?case by simp
next
  case (Cons sp sps)
  then obtain sp1 a1 u1 sps1 where
    h: "merge_spec env av n v sp a u = Inr (sp1, a1, u1)"
    and t: "merge_specs env av n v sps a1 u1 = Inr (sps1, a', u')" and e: "sps' = sp1 # sps1"
    by (auto split: sum.splits)
  show ?case using merge_spec_nop[OF h, of b] Cons.IH[OF t] e by simp
qed

lemma merge_result_nop:
  assumes "merge_result env av (m, a, u) r = Inr (m', a', u')"
  shows "merge_result env (av\<lparr>nop := True\<rparr>) (m, b, u) r = Inr (m', b, u')"
proof -
  from assms obtain v sps sps1 where
    r: "resolve env av (fst r) (snd r) = Inr v" and l: "map_of m (fst r) = Some sps"
    and s: "merge_specs env av (fst r) v sps a u = Inr (sps1, a', u')"
    and m': "m' = set_specs m (fst r) sps1"
    by (auto simp: merge_result_def split: sum.splits option.splits)
  show ?thesis
    using r l m' merge_specs_nop[OF s, of b] by (simp add: merge_result_def resolve_nop)
qed

lemma forEach_merge_nop:
  assumes "forEach (merge_result env av) (m, a, u) rs = Inr (m', a', u')"
  shows "forEach (merge_result env (av\<lparr>nop := True\<rparr>)) (m, b, u) rs = Inr (m', b, u')"
  using assms
proof (induction rs arbitrary: m a u)
  case Nil
  then show ?case by simp
next
  case (Cons r rs)
  then obtain m1 a1 u1 where
    h: "merge_result env av (m, a, u) r = Inr (m1, a1, u1)"
    and t: "forEach (merge_result env av) (m1, a1, u1) rs = Inr (m', a', u')"
    by (auto split: sum.splits)
  show ?case using merge_result_nop[OF h, of b] Cons.IH[OF t] by simp
qed

lemma run_nop:
  assumes "run env av = Inr out"
  shows "run env (av\<lparr>nop := True\<rparr>) = Inr (out\<lparr>out_written := None\<rparr>)"
proof -
  from assms obtain pkgData pk a0 m0 rs a' where
    1: "readFile env = Some pkgData" "JSON_parse env pkgData = Inr pk"
    "JsonAsty_parse env pkgData = Inr a0" "build_manifest env av pk = Inr m0"
    "mapLimit (lookup env) (checked m0) = Inr rs"
    and 6: "forEach (merge_result env av) (m0, a0, False) rs = Inr (out_manifest out, a', out_updates out)"
    by (rule run_Inr)
  show ?thesis
    using 1 forEach_merge_nop[OF 6, of a0]
    by (simp add: run_def run_on_def merged_def build_manifest_nop)
qed

lemma run_updates:
  assumes "run env av = Inr out"
  shows "out_updates out \<longleftrightarrow> updated_entries (out_manifest out) \<noteq> {}"
proof -
  from assms obtain pkgData pk a0 m0 rs a' where
    4: "build_manifest env av pk = Inr m0"
    and 6: "forEach (merge_result env av) (m0, a0, False) rs = Inr (out_manifest out, a', out_updates out)"
    by (rule run_Inr)
  have "merge_inv env a0 (out_manifest out, a', out_updates out)"
    by (rule merge_inv_forEach[OF 6 merge_inv_initial[OF classified_build[OF 4]]])
  then show ?thesis by (simp add: merge_inv_def)
qed

lemma execute_list_update:
  "i < length a \<Longrightarrow> selects s n x = selects s n (a ! i) \<Longrightarrow> execute (a[i := x]) s n = execute a s n"
  unfolding execute_def
  by (auto intro!: filter_cong simp: nth_list_update)

lemma build_manifest_cong:
  assumes "micromatch env' = micromatch env" "patterns av' = patterns av"
  shows "build_manifest env' av' = build_manifest env av"
proof -
  have "selection env' (patterns av') = selection env (patterns av)"
    using assms by (intro ext) (simp add: selection_def split: list.splits)
  then have "classify env' av' = classify env av"
    by (intro ext) (simp add: classify_def)
  then have "mixin_member env' av' = mixin_member env av"
    by (intro ext) (simp add: mixin_member_def)
  then have "mixin env' av' = mixin env av"
    by (intro ext) (simp add: mixin_def split: option.splits)
  then show ?thesis by (intro ext) (simp add: build_manifest_def)
qed

lemma count_list_distinct:
  "distinct xs \<Longrightarrow> count_list xs x = (if x \<in> set xs then 1 else 0)"
  by (induction xs) auto

lemma plan_mem:
  assumes "(n, sps) \<in> set (plan env av m)"
  shows "\<exists>sps0. (n, sps0) \<in> set m
           \<and> sps = (case resolved env av n of None \<Rightarrow> sps0 | Some v \<Rightarrow> map (decide env v) sps0)"
proof -
  from assms obtain entry where e: "entry \<in> set m" "n = fst entry"
    "sps = (case resolved env av (fst entry) of None \<Rightarrow> snd entry
            | Some v \<Rightarrow> map (decide env v) (snd entry))"
    unfolding plan_def by auto
  have "(n, snd entry) \<in> set m" using e(1,2) by simp
  then show ?thesis using e(2,3) by blast
qed

lemma forEach_steps:
  "forEach f s xs = Inr s' \<Longrightarrow> x \<in> set xs \<Longrightarrow> \<exists>t t'. f t x = Inr t'"
proof (induction xs arbitrary: s)
  case Nil
  then show ?case by simp
next
  case (Cons y ys)
  then show ?case by (auto split: sum.splits)
qed

lemma merged_resolved:
  assumes "mapLimit (lookup env) names = Inr rs"
    and "forEach (merge_result env av) vars rs = Inr vars'"
    and "n \<in> set names"
  shows "\<exists>v. resolved env av n = Some v"
proof -
  note l = lookup_results[OF assms(1)]
  from assms(3) l(1) obtain r where r: "r \<in> set rs" "fst r = n"
    by (metis (no_types, lifting) image_iff list.set_map)
  then have lr: "lookup env n = Inr r" using l(2) by auto
  from forEach_steps[OF assms(2) r(1)] obtain t t' where "merge_result env av t r = Inr t'"
    by blast
  then obtain v where "resolve env av (fst r) (snd r) = Inr v"
    by (cases t, cases t') (auto dest: merge_result_Inr)
  then show ?thesis using lr by (simp add: resolved_def)
qed

section \<open>Lemmas: the second run\<close>























lemma filter_key_distinct:
  "distinct (map fst rs) \<Longrightarrow> (k, d) \<in> set rs \<Longrightarrow> filter (\<lambda>r. fst r = k) rs = [(k, d)]"
proof (induction rs)
  case Nil
  then show ?case by simp
next
  case (Cons r rs)
  show ?case
  proof (cases "r = (k, d)")
    case True
    then have "k \<notin> fst ` set rs" using Cons.prems(1) by simp
    then have "filter (\<lambda>r. fst r = k) rs = []" by (auto simp: filter_empty_conv)
    then show ?thesis using True by simp
  next
    case False
    then have m: "(k, d) \<in> set rs" using Cons.prems(2) by simp
    then have "fst r \<noteq> k" using Cons.prems(1) by (metis distinct.simps(2) fst_conv image_eqI list.simps(9) set_map)
    then show ?thesis using Cons.IH m Cons.prems(1) by simp
  qed
qed

lemma plan_entry:
  assumes "(n, sps) \<in> set m"
  shows "(n, case resolved env av n of None \<Rightarrow> sps | Some v \<Rightarrow> map (decide env v) sps) \<in> set (plan env av m)"
proof -
  have "(\<lambda>entry. (fst entry, case resolved env av (fst entry) of None \<Rightarrow> snd entry
          | Some v \<Rightarrow> map (decide env v) (snd entry))) (n, sps) \<in> set (plan env av m)"
    unfolding plan_def set_map using assms by (rule imageI)
  then show ?thesis by (simp split: option.splits)
qed

lemma plan_keys: "map fst (plan env av m) = map fst m"
  by (simp add: plan_def comp_def)

section \<open>Lemmas: every update is carried out\<close>

lemma selects_unique: "selects s n x \<Longrightarrow> selects s' n' x \<Longrightarrow> s = s' \<and> n = n'"
  by (cases x) simp_all

lemma patched_selects:
  assumes "patched env U a0 a" "i < length a0"
  shows "selects s n (a ! i) = selects s n (a0 ! i)"
  using assms unfolding patched_def by (metis selects_node_set)

lemma execute_patched:
  assumes "patched env U a0 a"
  shows "execute a s n = execute a0 s n"
proof -
  have l: "length a = length a0" using assms by (simp add: patched_def)
  show ?thesis
    unfolding execute_def l
    by (rule filter_cong) (simp_all add: patched_selects[OF assms])
qed

lemma patched_node_set:
  assumes "patched env U a0 a" "i < length a0"
  shows "node_set (a ! i) t v = node_set (a0 ! i) t v"
  using assms unfolding patched_def by (metis node_set_twice)

lemma merge_spec_updated:
  assumes "merge_spec env av name vN sp a u = Inr (sp', a', u')"
    and "state sp = Check" "state sp' = Updated"
  shows "sNew sp' \<noteq> sOld sp'"
    "\<not> nop av \<Longrightarrow> \<exists>i. execute a (sect sp') name = [i]
        \<and> a' = a[i := node_set (a ! i) (JSON_stringify env (sNew sp')) (sNew sp')]"
  using assms
  by (auto simp: merge_spec_def Let_def split: if_splits sum.splits bool.splits list.splits)

lemma merge_spec_same_tree:
  assumes "merge_spec env av name vN sp a u = Inr (sp', a', u')"
    and "\<not> (state sp = Check \<and> state sp' = Updated)"
  shows "a' = a"
  using assms
  by (auto simp: merge_spec_def Let_def split: if_splits sum.splits bool.splits list.splits)

lemma applied_step:
  assumes m: "merge_spec env av name vN sp a u = Inr (sp', a', u')"
    and p: "patched env U a0 a" and ap: "applied env av U a0 a"
  shows "applied env av (U \<union> (if state sp = Check \<and> state sp' = Updated then {(name, sp')} else {})) a0 a'"
proof (cases "state sp = Check \<and> state sp' = Updated")
  case False
  then show ?thesis using merge_spec_same_tree[OF m False] ap by auto
next
  case True
  note ne = merge_spec_updated(1)[OF m True[THEN conjunct1] True[THEN conjunct2]]
  show ?thesis
  proof (cases "nop av")
    case True
    then show ?thesis using ap ne unfolding applied_def by auto
  next
    case False
    from merge_spec_updated(2)[OF m True[THEN conjunct1] True[THEN conjunct2] False]
    obtain i where e: "execute a (sect sp') name = [i]"
      and a': "a' = a[i := node_set (a ! i) (JSON_stringify env (sNew sp')) (sNew sp')]"
      by blast
    have e0: "execute a0 (sect sp') name = [i]" using e execute_patched[OF p] by simp
    have i: "i < length a0" "selects (sect sp') name (a0 ! i)" using execute_single[OF e0] by simp_all
    have l: "length a = length a0" using p by (simp add: patched_def)
    have ai: "a' ! i = node_set (a0 ! i) (JSON_stringify env (sNew sp')) (sNew sp')"
      using a' i(1) l patched_node_set[OF p i(1)] by simp
    let ?U = "U \<union> {(name, sp')}"
    have "sNew s \<noteq> sOld s
        \<and> (\<not> nop av \<longrightarrow>
             (\<exists>j s'. execute a0 (sect s) n = [j] \<and> (n, s') \<in> ?U \<and> sect s' = sect s
                \<and> a' ! j = node_set (a0 ! j) (JSON_stringify env (sNew s')) (sNew s')))"
      if h: "(n, s) \<in> ?U" for n s
    proof (cases "(n, s) = (name, sp')")
      case True
      then show ?thesis using ne e0 ai by auto
    next
      case False
      then have u: "(n, s) \<in> U" using h by auto
      with ap \<open>\<not> nop av\<close> obtain j s' where
        j: "execute a0 (sect s) n = [j]" "(n, s') \<in> U" "sect s' = sect s"
        "a ! j = node_set (a0 ! j) (JSON_stringify env (sNew s')) (sNew s')"
        and ns: "sNew s \<noteq> sOld s"
        unfolding applied_def by blast
      show ?thesis
      proof (cases "j = i")
        case True
        have "selects (sect s) n (a0 ! i)" using execute_single(2)[OF j(1)] True by simp
        with i(2) have "sect s = sect sp'" "n = name" using selects_unique by blast+
        then show ?thesis using ns j(1) True ai by auto
      next
        case False
        then have "a' ! j = a ! j" using a' by simp
        then show ?thesis using ns j by auto
      qed
    qed
    then show ?thesis using True unfolding applied_def by simp
  qed
qed

lemma applied_steps:
  assumes "merge_specs env av name vN sps a u = Inr (sps', a', u')"
    and "patched env U a0 a" "applied env av U a0 a"
  shows "applied env av (U \<union> newly_updated env name vN sps) a0 a'"
  using assms
proof (induction sps arbitrary: a u sps' U)
  case Nil
  then show ?case by (simp add: newly_updated_def)
next
  case (Cons sp sps)
  from Cons.prems(1) obtain sp1 a1 u1 sps1 where
    h: "merge_spec env av name vN sp a u = Inr (sp1, a1, u1)"
    and t: "merge_specs env av name vN sps a1 u1 = Inr (sps1, a', u')"
    by (auto split: sum.splits)
  let ?N = "if state sp = Check \<and> state sp1 = Updated then {(name, sp1)} else {}"
  have a1: "applied env av (U \<union> ?N) a0 a1" by (rule applied_step[OF h Cons.prems(2,3)])
  have p1: "patched env (U \<union> ?N) a0 a1"
    by (rule patched_trans[OF patched_mono[OF Cons.prems(2)] patched_mono[OF merge_spec_Inr(3)[OF h]]])
      auto
  have "applied env av ((U \<union> ?N) \<union> newly_updated env name vN sps) a0 a'"
    by (rule Cons.IH[OF t p1 a1])
  moreover have "(U \<union> ?N) \<union> newly_updated env name vN sps = U \<union> newly_updated env name vN (sp # sps)"
    using merge_spec_Inr(1)[OF h] by (auto simp: newly_updated_Cons)
  ultimately show ?case by simp
qed

lemma merge_inv2_step:
  assumes "merge_result env av vars r = Inr vars'" "merge_inv2 env av a0 vars"
  shows "merge_inv2 env av a0 vars'"
proof -
  obtain m a u where v: "vars = (m, a, u)" by (cases vars)
  obtain m' a' u' where v': "vars' = (m', a', u')" by (cases vars')
  from assms(1)[unfolded v v'] obtain vN sps sps1 where
    l: "map_of m (fst r) = Some sps"
    and s: "merge_specs env av (fst r) vN sps a u = Inr (sps1, a', u')"
    and m': "m' = set_specs m (fst r) sps1"
    by (auto simp: merge_result_def split: sum.splits option.splits)
  have i: "merge_inv env a0 (m, a, u)" and ap: "applied env av (updated_entries m) a0 a"
    using assms(2) by (simp_all add: merge_inv2_def v)
  have d: "distinct (map fst m)" and p0: "patched env (updated_entries m) a0 a"
    using i by (simp_all add: merge_inv_def)
  have e: "updated_entries m' = updated_entries m \<union> newly_updated env (fst r) vN sps"
    unfolding m' merge_specs_Inr(1)[OF s] by (rule updated_entries_set_specs[OF d l])
  have "applied env av (updated_entries m') a0 a'"
    unfolding e by (rule applied_steps[OF s p0 ap])
  moreover have "merge_inv env a0 (m', a', u')"
    using merge_inv_step[OF assms(1)[unfolded v v'] i] .
  ultimately show ?thesis by (simp add: merge_inv2_def v')
qed

lemma merged_applied:
  assumes "build_manifest env av pk = Inr m0"
    and "forEach (merge_result env av) (m0, a0, False) rs = Inr (m', a', u')"
  shows "patched env (updated_entries m') a0 a'" "applied env av (updated_entries m') a0 a'"
    "distinct (map fst m')" "u' \<longleftrightarrow> updated_entries m' \<noteq> {}"
proof -
  have c: "classified env av m0" by (rule classified_build[OF assms(1)])
  have i0: "merge_inv2 env av a0 (m0, a0, False)"
    using merge_inv_initial[OF c, of a0] classified_no_updates[OF c]
    by (simp add: merge_inv2_def applied_def)
  have "merge_inv2 env av a0 (m', a', u')"
    using assms(2) i0
  proof (rule forEach_invariant[where P = "merge_inv2 env av a0"])
    fix s x s' assume "merge_inv2 env av a0 s" "merge_result env av s x = Inr s'"
    then show "merge_inv2 env av a0 s'" by (rule merge_inv2_step[rotated])
  qed
  then show "patched env (updated_entries m') a0 a'" "applied env av (updated_entries m') a0 a'"
    "distinct (map fst m')" "u' \<longleftrightarrow> updated_entries m' \<noteq> {}"
    by (simp_all add: merge_inv2_def merge_inv_def)
qed


















section \<open>Lemmas: the run with \<^verbatim>\<open>argv.nop\<close>, and failures\<close>

lemma merge_spec_dry:
  assumes "nop av" "semver_gt env' = semver_gt env"
  shows "merge_spec env' av n v sp b u =
           (case merge_spec env av n v sp a u of
              Inl e \<Rightarrow> Inl e
            | Inr (sp', a', u') \<Rightarrow> Inr (sp', b, u'))"
  using assms by (simp add: merge_spec_def Let_def split: sum.splits bool.splits)

lemma merge_specs_dry:
  assumes "nop av" "semver_gt env' = semver_gt env"
  shows "merge_specs env' av n v sps b u =
           (case merge_specs env av n v sps a u of
              Inl e \<Rightarrow> Inl e
            | Inr (sps', a', u') \<Rightarrow> Inr (sps', b, u'))"
proof (induction sps arbitrary: a b u)
  case Nil
  then show ?case by simp
next
  case (Cons sp sps)
  show ?case
  proof (cases "merge_spec env av n v sp a u")
    case (Inl e)
    then show ?thesis using merge_spec_dry[OF assms, of n v sp b u a] by simp
  next
    case (Inr r)
    obtain sp1 a1 u1 where r: "r = (sp1, a1, u1)" by (cases r)
    have 1: "merge_spec env' av n v sp b u = Inr (sp1, b, u1)"
      using merge_spec_dry[OF assms, of n v sp b u a] Inr r by simp
    show ?thesis
      using Inr r 1 Cons.IH[of b u1 a1] by (simp split: sum.splits)
  qed
qed

lemma resolve_cong:
  "semver_rcompare env' = semver_rcompare env \<Longrightarrow> resolve env' av = resolve env av"
  by (intro ext) (simp add: resolve_def)

lemma merge_result_dry:
  assumes "nop av" "semver_gt env' = semver_gt env" "semver_rcompare env' = semver_rcompare env"
  shows "merge_result env' av (m, b, u) r =
           (case merge_result env av (m, a, u) r of
              Inl e \<Rightarrow> Inl e
            | Inr (m', a', u') \<Rightarrow> Inr (m', b, u'))"
  using merge_specs_dry[OF assms(1,2), of "fst r" _ _ b u a]
  by (simp add: merge_result_def resolve_cong[OF assms(3)] split: sum.splits option.splits)

lemma forEach_dry:
  assumes "nop av" "semver_gt env' = semver_gt env" "semver_rcompare env' = semver_rcompare env"
  shows "forEach (merge_result env' av) (m, b, u) rs =
           (case forEach (merge_result env av) (m, a, u) rs of
              Inl e \<Rightarrow> Inl e
            | Inr (m', a', u') \<Rightarrow> Inr (m', b, u'))"
proof (induction rs arbitrary: m a b u)
  case Nil
  then show ?case by simp
next
  case (Cons r rs)
  show ?case
  proof (cases "merge_result env av (m, a, u) r")
    case (Inl e)
    then show ?thesis using merge_result_dry[OF assms, of m b u r a] by simp
  next
    case (Inr x)
    obtain m1 a1 u1 where x: "x = (m1, a1, u1)" by (cases x)
    have 1: "merge_result env' av (m, b, u) r = Inr (m1, b, u1)"
      using merge_result_dry[OF assms, of m b u r a] Inr x by simp
    show ?thesis using Inr x 1 Cons.IH[of m1 b u1 a1] by simp
  qed
qed

lemma lookup_cong:
  "toLowerCase env' = toLowerCase env \<Longrightarrow> got env' = got env \<Longrightarrow> lookup env' = lookup env"
  by (intro ext) (simp add: lookup_def fetchPackageInfo_def)

lemma dry_run_tree:
  assumes "nop av"
    and "readFile env' = readFile env" "JSON_parse env' = JSON_parse env"
    and "micromatch env' = micromatch env" "toLowerCase env' = toLowerCase env" "got env' = got env"
    and "semver_gt env' = semver_gt env" "semver_rcompare env' = semver_rcompare env"
    and "JsonAsty_parse env = (\<lambda>d. Inr a)" "JsonAsty_parse env' = (\<lambda>d. Inr b)"
  shows "run env' av = run env av"
proof (cases "readFile env")
  case None
  then show ?thesis using assms(2) by (simp add: run_def)
next
  case (Some d)
  have bm: "build_manifest env' av = build_manifest env av"
    by (rule build_manifest_cong[OF assms(4)]) simp
  have lk: "lookup env' = lookup env" by (rule lookup_cong[OF assms(5,6)])
  have "run_on env' av d = run_on env av d"
  proof (cases "JSON_parse env d")
    case (Inl x)
    then show ?thesis using assms(3) by (simp add: run_on_def merged_def)
  next
    case (Inr pk)
    show ?thesis
    proof (cases "build_manifest env av pk")
      case (Inl e)
      then show ?thesis using Inr assms(3,9,10) bm by (simp add: run_on_def merged_def)
    next
      case m: (Inr m0)
      show ?thesis
      proof (cases "mapLimit (lookup env) (checked m0)")
        case (Inl e)
        then show ?thesis using Inr m assms(3,9,10) bm lk by (simp add: run_on_def merged_def)
      next
        case rs: (Inr rs)
        have 1: "merged env av d = forEach (merge_result env av) (m0, a, False) rs"
          using Inr m rs assms(9) by (simp add: merged_def)
        have 2: "merged env' av d = forEach (merge_result env' av) (m0, b, False) rs"
          using Inr m rs assms(3,10) bm lk by (simp add: merged_def)
        show ?thesis
          unfolding run_on_def 1 2 forEach_dry[OF assms(1,7,8), of m0 b False rs a]
          using assms(1) by (simp split: sum.splits)
      qed
    qed
  qed
  then show ?thesis using Some assms(2) by (simp add: run_def)
qed

lemma forEach_Inl: "forEach f s xs = Inl e \<Longrightarrow> \<exists>s' x. f s' x = Inl e"
proof (induction xs arbitrary: s)
  case Nil
  then show ?case by simp
next
  case (Cons x xs)
  then show ?case by (cases "f s x") auto
qed

lemma mapLimit_Inl: "mapLimit f xs = Inl e \<Longrightarrow> \<exists>x. f x = Inl e"
proof (induction xs)
  case Nil
  then show ?case by simp
next
  case (Cons x xs)
  then show ?case by (cases "f x"; cases "mapLimit f xs") auto
qed

lemma merge_specs_dry_error:
  "nop av \<Longrightarrow> merge_specs env av n v sps a u \<noteq> Inl (FailedToFind x y)"
proof (induction sps arbitrary: a u)
  case Nil
  then show ?case by simp
next
  case (Cons sp sps)
  have "merge_spec env av n v sp a u \<noteq> Inl (FailedToFind x y)"
    using Cons.prems by (simp add: merge_spec_def Let_def split: sum.splits bool.splits)
  then show ?case using Cons.IH[OF Cons.prems] by (auto split: sum.splits)
qed

lemma build_manifest_error: "build_manifest env av pk \<noteq> Inl (FailedToFind x y)"
proof
  assume "build_manifest env av pk = Inl (FailedToFind x y)"
  then have "forEach (mixin env av pk) [] sections = Inl (FailedToFind x y)"
    by (simp add: build_manifest_def)
  from forEach_Inl[OF this] obtain m sec where "mixin env av pk m sec = Inl (FailedToFind x y)"
    by blast
  then obtain ms where "forEach (mixin_member env av sec) m ms = Inl (FailedToFind x y)"
    by (auto simp: mixin_def split: option.splits)
  from forEach_Inl[OF this] obtain m' member where
    "mixin_member env av sec m' member = Inl (FailedToFind x y)"
    by blast
  then show False
    by (auto simp: mixin_member_def classify_def selection_def split: sum.splits if_splits list.splits)
qed

lemma dry_run_error:
  assumes "nop av"
  shows "run env av \<noteq> Inl (FailedToFind x y)"
proof
  assume r: "run env av = Inl (FailedToFind x y)"
  then obtain d where d: "readFile env = Some d" "run_on env av d = Inl (FailedToFind x y)"
    by (auto simp: run_def split: option.splits)
  then have m: "merged env av d = Inl (FailedToFind x y)"
    by (auto simp: run_on_def split: sum.splits)
  then obtain pk a0 where p: "JSON_parse env d = Inr pk" "JsonAsty_parse env d = Inr a0"
    by (auto simp: merged_def split: sum.splits)
  then obtain m0 where m0: "build_manifest env av pk = Inr m0"
    using m build_manifest_error[of env av pk x y] by (auto simp: merged_def split: sum.splits)
  have "mapLimit (lookup env) (checked m0) \<noteq> Inl (FailedToFind x y)"
  proof
    assume "mapLimit (lookup env) (checked m0) = Inl (FailedToFind x y)"
    from mapLimit_Inl[OF this] obtain n where "lookup env n = Inl (FailedToFind x y)" by blast
    then show False
      by (auto simp: lookup_def fetchPackageInfo_def split: sum.splits got_error.splits if_splits)
  qed
  then obtain rs where rs: "mapLimit (lookup env) (checked m0) = Inr rs"
    using m p m0 by (auto simp: merged_def split: sum.splits)
  then have "forEach (merge_result env av) (m0, a0, False) rs = Inl (FailedToFind x y)"
    using m p m0 by (simp add: merged_def)
  from forEach_Inl[OF this] obtain vars r' where
    "merge_result env av vars r' = Inl (FailedToFind x y)"
    by blast
  then show False
    using merge_specs_dry_error[OF assms]
    by (auto simp: merge_result_def resolve_def split: sum.splits option.splits prod.splits if_splits list.splits)
qed

lemma dry_run_writes_nothing:
  assumes "nop av"
  shows "file_after env (run env av) = readFile env"
proof (cases "run env av")
  case (Inl e)
  then show ?thesis by (simp add: file_after_def)
next
  case (Inr out)
  then obtain pkgData pk a0 m0 rs a' where
    "out_written out = (if out_updates out \<and> \<not> nop av then Some (unparse a') else None)"
    by (rule run_Inr)
  then have "out_written out = None" using assms by simp
  then show ?thesis using Inr by (simp add: file_after_def)
qed

lemma nothing_failed:
  assumes "run env av = Inr out"
  shows "\<exists>pkgData pk a0 m0.
            readFile env = Some pkgData \<and> JSON_parse env pkgData = Inr pk
            \<and> JsonAsty_parse env pkgData = Inr a0 \<and> build_manifest env av pk = Inr m0
            \<and> (\<forall>name\<in>set (checked m0). \<exists>data v. lookup env name = Inr (name, data)
                  \<and> resolve env av name data = Inr v)
            \<and> (\<forall>n sps sp. (n, sps) \<in> set (out_manifest out) \<and> sp \<in> set sps \<and> state sp = Updated \<longrightarrow>
                  sNew sp \<noteq> sOld sp \<and> (\<not> nop av \<longrightarrow> (\<exists>i. execute a0 (sect sp) n = [i])))"
proof -
  from assms obtain pkgData pk a0 m0 rs a' where
    1: "readFile env = Some pkgData" "JSON_parse env pkgData = Inr pk"
    "JsonAsty_parse env pkgData = Inr a0"
    and 4: "build_manifest env av pk = Inr m0"
    and 5: "mapLimit (lookup env) (checked m0) = Inr rs"
    and 6: "forEach (merge_result env av) (m0, a0, False) rs = Inr (out_manifest out, a', out_updates out)"
    by (rule run_Inr)
  note l = lookup_results[OF 5]
  have a: "\<exists>data v. lookup env name = Inr (name, data) \<and> resolve env av name data = Inr v"
    if "name \<in> set (checked m0)" for name
  proof -
    from that have "name \<in> set (map fst rs)" by (simp add: l(1))
    then obtain data where data: "(name, data) \<in> set rs" by auto
    then have lk: "lookup env name = Inr (name, data)" using l(2) by fastforce
    from merged_resolved[OF 5 6 that] obtain v where "resolved env av name = Some v" by blast
    then have "resolve env av name data = Inr v"
      using lk by (simp add: resolved_def split: sum.splits)
    then show ?thesis using lk by blast
  qed
  have ap: "applied env av (updated_entries (out_manifest out)) a0 a'"
    by (rule merged_applied(2)[OF 4 6])
  have b: "sNew sp \<noteq> sOld sp \<and> (\<not> nop av \<longrightarrow> (\<exists>i. execute a0 (sect sp) n = [i]))"
    if "(n, sps) \<in> set (out_manifest out) \<and> sp \<in> set sps \<and> state sp = Updated" for n sps sp
  proof -
    from that have "(n, sp) \<in> updated_entries (out_manifest out)"
      unfolding updated_entries_def by blast
    then show ?thesis using ap unfolding applied_def by blast
  qed
  show ?thesis using 1 4 a b by blast
qed

lemma returns_or_aborts: "(\<exists>out. run env av = Inr out) \<or> (\<exists>e. run env av = Inl e)"
  by (cases "run env av") auto

lemma failure_aborts:
  assumes f: "readFile env = Some pkgData"
  shows "JSON_parse env pkgData = Inl x \<Longrightarrow> run env av = Inl (Thrown x)"
    "JSON_parse env pkgData = Inr pk \<Longrightarrow> JsonAsty_parse env pkgData = Inl x \<Longrightarrow>
       run env av = Inl (Thrown x)"
    "JSON_parse env pkgData = Inr pk \<Longrightarrow> JsonAsty_parse env pkgData = Inr a0 \<Longrightarrow>
       build_manifest env av pk = Inr m0 \<Longrightarrow> name \<in> set (checked m0) \<Longrightarrow>
       lookup env name = Inl e \<Longrightarrow> \<exists>e'. run env av = Inl e'"
    "JSON_parse env pkgData = Inr pk \<Longrightarrow> JsonAsty_parse env pkgData = Inr a0 \<Longrightarrow>
       build_manifest env av pk = Inr m0 \<Longrightarrow> (n, sps) \<in> set m0 \<Longrightarrow> sp \<in> set sps \<Longrightarrow>
       resolved env av n = Some v \<Longrightarrow> state sp = Check \<Longrightarrow> state (decide env v sp) = Updated \<Longrightarrow>
       sNew (decide env v sp) = sOld sp \<or> (\<not> nop av \<and> (\<forall>i. execute a0 (sect sp) n \<noteq> [i])) \<Longrightarrow>
       \<exists>e'. run env av = Inl e'"
proof -
  show "JSON_parse env pkgData = Inl x \<Longrightarrow> run env av = Inl (Thrown x)"
    using f by (simp add: run_def run_on_def merged_def)
  show "JSON_parse env pkgData = Inr pk \<Longrightarrow> JsonAsty_parse env pkgData = Inl x \<Longrightarrow>
       run env av = Inl (Thrown x)"
    using f by (simp add: run_def run_on_def merged_def)
  show "\<exists>e'. run env av = Inl e'"
    if p: "JSON_parse env pkgData = Inr pk" "JsonAsty_parse env pkgData = Inr a0"
      "build_manifest env av pk = Inr m0" and c: "name \<in> set (checked m0)"
      and l: "lookup env name = Inl e"
  proof (rule ccontr)
    assume "\<not> (\<exists>e'. run env av = Inl e')"
    then obtain out where "run env av = Inr out" using returns_or_aborts[of env av] by blast
    then obtain pkgData' pk' a0' m0' rs a' where
      1: "readFile env = Some pkgData'" "JSON_parse env pkgData' = Inr pk'"
      "build_manifest env av pk' = Inr m0'"
      and 5: "mapLimit (lookup env) (checked m0') = Inr rs"
      by (rule run_Inr)
    have "m0' = m0" using 1 f p by simp
    then have "name \<in> set (map fst rs)" using c lookup_results(1)[OF 5] by simp
    then obtain data where "(name, data) \<in> set rs" by auto
    then have "lookup env name = Inr (name, data)" using lookup_results(2)[OF 5] by fastforce
    then show False using l by simp
  qed
  show "\<exists>e'. run env av = Inl e'"
    if p: "JSON_parse env pkgData = Inr pk" "JsonAsty_parse env pkgData = Inr a0"
      "build_manifest env av pk = Inr m0" and m: "(n, sps) \<in> set m0" "sp \<in> set sps"
      and r: "resolved env av n = Some v" and s: "state sp = Check" "state (decide env v sp) = Updated"
      and b: "sNew (decide env v sp) = sOld sp \<or> (\<not> nop av \<and> (\<forall>i. execute a0 (sect sp) n \<noteq> [i]))"
  proof (rule ccontr)
    assume "\<not> (\<exists>e'. run env av = Inl e')"
    then obtain out where "run env av = Inr out" using returns_or_aborts[of env av] by blast
    then obtain pkgData' pk' a0' m0' rs a' where
      1: "readFile env = Some pkgData'" "JSON_parse env pkgData' = Inr pk'"
      "JsonAsty_parse env pkgData' = Inr a0'"
      and 4: "build_manifest env av pk' = Inr m0'"
      and 5: "mapLimit (lookup env) (checked m0') = Inr rs"
      and 6: "forEach (merge_result env av) (m0', a0', False) rs = Inr (out_manifest out, a', out_updates out)"
      by (rule run_Inr)
    have e: "m0' = m0" "a0' = a0" using 1 4 f p by simp_all
    have "out_manifest out = plan env av m0" using run_plan[OF 4 5 6] e by simp
    then have "(n, map (decide env v) sps) \<in> set (out_manifest out)"
      using plan_entry[OF m(1), of env av] r by simp
    then have "(n, decide env v sp) \<in> updated_entries (out_manifest out)"
      unfolding updated_entries_def using m(2) s(2) by auto
    with merged_applied(2)[OF 4 6] have
      "sNew (decide env v sp) \<noteq> sOld (decide env v sp)
       \<and> (\<not> nop av \<longrightarrow> (\<exists>i. execute a0 (sect (decide env v sp)) n = [i]))"
      unfolding applied_def e by blast
    then show False using b by (auto simp: decide_state(3,4))
  qed
qed

section \<open>Lemmas: the run on the rewritten file\<close>






section \<open>The concrete environment, evaluated\<close>

lemma js_inject: "js a = js b \<longleftrightarrow> a = b"
  unfolding js_def by (rule inj_map_eq_map) (simp add: inj_on_def)

lemma example_env_sel:
  "readFile example_env = Some (concat manifest_text)"
  "JSON_parse example_env (concat manifest_text) = Inr example_pkg"
  "JsonAsty_parse example_env (concat manifest_text) = Inr example_ast"
  "JSON_stringify example_env = (\<lambda>s. 34 # s @ [34])"
  "micromatch example_env = glob_micromatch"
  "got example_env = example_registry"
  "semver_gt example_env = gt"
  "semver_rcompare example_env = rcompare"
  by (simp_all add: example_env_def example_parse_def example_asty_def)

lemma example_lower: "toLowerCase example_env (js ''left-pad'') = js ''left-pad''"
  by (simp add: example_env_def js_def)

lemma nested_env_sel:
  "readFile nested_env = Some (unparse nested_ast)"
  "JSON_parse nested_env = (\<lambda>t. Inr example_pkg)"
  "JsonAsty_parse nested_env = (\<lambda>t. Inr nested_ast)"
  "JSON_stringify nested_env = (\<lambda>s. 34 # s @ [34])"
  "micromatch nested_env = glob_micromatch"
  "toLowerCase nested_env = toLowerCase example_env"
  "got nested_env = example_registry"
  "semver_gt nested_env = gt"
  "semver_rcompare nested_env = rcompare"
  by (simp_all add: nested_env_def example_env_def)

lemmas semver_eval = gt_def compare_def parse_version_def js_def numeric_def is_digit_def
  to_number_def compare_versions_def compare_nat_def is_identifier_def

lemma gt_values:
  "gt (js ''1.2.0'') (js ''1.3.0'') = Inr False"
  "gt (js ''1.3.0'') (js ''1.2.0'') = Inr True"
  "gt (js ''2.0.0'') (js ''1.0.0'') = Inr True"
  "gt (js ''1.10.0'') (js ''1.9.0'') = Inr True"
  by (simp_all add: semver_eval)

lemma replace_values:
  "replace (js ''^1.2.0'') (js ''1.2.0'') (js ''1.3.0'') = js ''^1.3.0''"
  "replace (js ''~1.2.0'') (js ''1.2.0'') (js ''1.3.0'') = js ''~1.3.0''"
  by (simp_all add: replace_def js_def)

lemma example_checked:
  "checked [(js ''left-pad'',
           [\<lparr>sect = js ''devDependencies'', sOld = js ''~1.2.0'', vOld = js ''1.2.0'',
              sNew = js ''~1.2.0'', vNew = js ''1.2.0'', state = Check\<rparr>,
            \<lparr>sect = js ''dependencies'', sOld = js ''^1.2.0'', vOld = js ''1.2.0'',
              sNew = js ''^1.2.0'', vNew = js ''1.2.0'', state = Check\<rparr>]),
          (js ''is-odd'',
           [\<lparr>sect = js ''dependencies'', sOld = js ''git+https://example/repo.git'',
              vOld = js ''git+https://example/repo.git'', sNew = js ''git+https://example/repo.git'',
              vNew = js ''git+https://example/repo.git'', state = Skipped\<rparr>])] = [js ''left-pad'']"
  by (simp add: checked_def set_key_def)

lemma example_lookup:
  "lookup example_env (js ''left-pad'') =
     Inr (js ''left-pad'', \<lparr>dist_tags_latest = Some (js ''1.3.0''), versions = [js ''1.2.0'', js ''1.3.0'']\<rparr>)"
  by (simp add: lookup_def fetchPackageInfo_def example_env_sel example_lower example_registry_def)

lemma nested_lookup: "lookup nested_env = lookup example_env"
  by (intro ext) (simp add: lookup_def fetchPackageInfo_def nested_env_sel example_env_sel)

lemma example_resolve:
  "resolve env example_argv (js ''left-pad'')
     \<lparr>dist_tags_latest = Some (js ''1.3.0''), versions = [js ''1.2.0'', js ''1.3.0'']\<rparr> = Inr (js ''1.3.0'')"
  "resolve env (example_argv\<lparr>nop := True\<rparr>) (js ''left-pad'')
     \<lparr>dist_tags_latest = Some (js ''1.3.0''), versions = [js ''1.2.0'', js ''1.3.0'']\<rparr> = Inr (js ''1.3.0'')"
  by (simp_all add: resolve_def example_argv_def)

lemma example_ast_length: "length example_ast = 7" "length nested_ast = 9"
  by (simp_all add: example_ast_def nested_ast_def)

lemma example_execute:
  "execute example_ast (js ''devDependencies'') (js ''left-pad'') = [1]"
  "execute example_ast (js ''dependencies'') (js ''left-pad'') = [3]"
  by (simp_all add: execute_def example_ast_def upt_rec js_inject)

lemma nested_execute:
  "execute nested_ast (js ''devDependencies'') (js ''left-pad'') = [1]"
  "execute nested_ast (js ''dependencies'') (js ''left-pad'') = [3, 7]"
  by (simp_all add: execute_def nested_ast_def example_ast_def upt_rec js_inject)

lemma example_run:
  "run example_env example_argv =
     Inr \<lparr>out_manifest =
            [(js ''left-pad'',
              [\<lparr>sect = js ''devDependencies'', sOld = js ''~1.2.0'', vOld = js ''1.2.0'',
                 sNew = js ''~1.3.0'', vNew = js ''1.3.0'', state = Updated\<rparr>,
               \<lparr>sect = js ''dependencies'', sOld = js ''^1.2.0'', vOld = js ''1.2.0'',
                 sNew = js ''^1.3.0'', vNew = js ''1.3.0'', state = Updated\<rparr>]),
             (js ''is-odd'',
              [\<lparr>sect = js ''dependencies'', sOld = js ''git+https://example/repo.git'',
                 vOld = js ''git+https://example/repo.git'', sNew = js ''git+https://example/repo.git'',
                 vNew = js ''git+https://example/repo.git'', state = Skipped\<rparr>])],
          out_updates = True,
          out_written = Some (unparse (example_ast
              [1 := ValueString (js ''devDependencies'') (js ''left-pad'') (34 # js ''~1.3.0'' @ [34]) (js ''~1.3.0''),
               3 := ValueString (js ''dependencies'') (js ''left-pad'') (34 # js ''^1.3.0'' @ [34]) (js ''^1.3.0'')]))\<rparr>"
proof -
  have n: "\<not> nop example_argv" by (simp add: example_argv_def)
  have a1: "example_ast ! Suc 0 = ValueString (js ''devDependencies'') (js ''left-pad'') (manifest_text ! 1) (js ''~1.2.0'')"
    and a3: "example_ast ! 3 = ValueString (js ''dependencies'') (js ''left-pad'') (manifest_text ! 3) (js ''^1.2.0'')"
    by (simp_all add: example_ast_def)
  show ?thesis
    by (simp add: run_def run_on_def merged_def example_env_sel example_manifest example_checked example_lookup
        merge_result_def example_resolve js_inject merge_spec_def gt_values replace_values
        execute_list_update example_ast_length example_execute set_specs_def n a1 a3)
qed

lemma nested_run:
  "run nested_env example_argv = Inl (FailedToFind (js ''left-pad'') (js ''dependencies''))"
proof -
  have n: "\<not> nop example_argv" by (simp add: example_argv_def)
  have a1: "nested_ast ! Suc 0 = ValueString (js ''devDependencies'') (js ''left-pad'') (manifest_text ! 1) (js ''~1.2.0'')"
    by (simp add: nested_ast_def example_ast_def)
  have b: "build_manifest nested_env example_argv = build_manifest example_env example_argv"
    by (rule build_manifest_cong) (simp_all add: nested_env_sel example_env_sel)
  show ?thesis
    by (simp add: run_def run_on_def merged_def nested_env_sel b example_manifest example_checked nested_lookup example_lookup
        merge_result_def example_resolve js_inject merge_spec_def gt_values replace_values
        execute_list_update example_ast_length nested_execute set_specs_def n a1)
qed

lemma nested_dry_run:
  "\<exists>out. run nested_env (example_argv\<lparr>nop := True\<rparr>) = Inr out
     \<and> report example_argv (out_manifest out) =
         [(js ''left-pad'', js ''~1.2.0'', js ''~1.3.0'', Updated),
          (js ''left-pad'', js ''^1.2.0'', js ''^1.3.0'', Updated)]"
proof -
  have sa: "\<not> show_all example_argv" by (simp add: example_argv_def)
  have b: "build_manifest nested_env (example_argv\<lparr>nop := True\<rparr>) = build_manifest example_env example_argv"
    by (rule build_manifest_cong) (simp_all add: nested_env_sel example_env_sel)
  show ?thesis
    by (simp add: run_def run_on_def merged_def nested_env_sel b example_manifest example_checked nested_lookup example_lookup
        merge_result_def example_resolve js_inject merge_spec_def gt_values replace_values
        set_specs_def report_def sa)
qed

lemma example_spec_check:
  "state example_spec = Check" "specifier_match (sOld example_spec) = Some (vOld example_spec)"
  by (simp_all add: example_spec_def specifier_match_def char_classes)

lemma pinned_ahead_check:
  "state pinned_ahead = Check" "specifier_match (sOld pinned_ahead) = Some (vOld pinned_ahead)"
  by (simp_all add: pinned_ahead_def specifier_match_def char_classes)

lemma example_gt:
  "semver_gt example_env (js ''1.3.0'') (vOld example_spec) = Inr True"
  "semver_gt example_env (vOld pinned_ahead) (js ''1.0.0'') = Inr True"
  by (simp_all add: example_env_sel example_spec_def pinned_ahead_def gt_values)

lemma left_pad_scenario:
  "merge_spec example_env example_argv (js ''left-pad'') (js ''1.3.0'') example_spec example_ast False =
     Inr (example_spec\<lparr>vNew := js ''1.3.0'', sNew := js ''^1.3.0'', state := Updated\<rparr>,
          example_ast[3 := ValueString (js ''dependencies'') (js ''left-pad'')
                             (34 # js ''^1.3.0'' @ [34]) (js ''^1.3.0'')],
          True)"
proof -
  have n: "\<not> nop example_argv" by (simp add: example_argv_def)
  have a3: "example_ast ! 3 =
      ValueString (js ''dependencies'') (js ''left-pad'') (manifest_text ! 3) (js ''^1.2.0'')"
    by (simp add: example_ast_def)
  show ?thesis
    by (simp add: merge_spec_def example_spec_def example_env_sel js_inject gt_values
          replace_values example_execute n a3)
qed

lemma numeric_not_lexicographic:
  "semver_gt example_env (js ''1.10.0'') (js ''1.9.0'') = Inr True"
  by (simp add: example_env_sel gt_values)

lemma example_unparse: "unparse example_ast = concat manifest_text"
  by (simp add: unparse_def example_ast_def manifest_text_def)

lemma example_resolved: "resolved example_env example_argv (js ''left-pad'') = Some (js ''1.3.0'')"
  by (simp add: resolved_def example_lookup example_resolve)

lemma quoted: "34 # js s @ [34] = js (CHR 0x22 # s @ [CHR 0x22])"
  by (simp add: js_def)





lemma example_matches:
  "specifier_match (js ''~1.2.0'') = Some (js ''1.2.0'')"
  "specifier_match (js ''^1.2.0'') = Some (js ''1.2.0'')"
  "specifier_match (js ''git+https://example/repo.git'') = None"
  by (simp_all add: specifier_match_def char_classes)

lemma example_resolved_is_odd: "resolved example_env example_argv (js ''is-odd'') = None"
  by (simp add: resolved_def lookup_def fetchPackageInfo_def example_env_def example_registry_def js_def)

lemma example_specifier_after:
  "specifier_after example_env example_argv (js ''devDependencies'') (js ''left-pad'') (js ''~1.2.0'') = js ''~1.3.0''"
  "specifier_after example_env example_argv (js ''dependencies'') (js ''left-pad'') (js ''^1.2.0'') = js ''^1.3.0''"
  "specifier_after example_env example_argv (js ''dependencies'') (js ''is-odd'')
     (js ''git+https://example/repo.git'') = js ''git+https://example/repo.git''"
proof -
  have p: "patterns example_argv = []" by (simp add: example_argv_def)
  show "specifier_after example_env example_argv (js ''devDependencies'') (js ''left-pad'') (js ''~1.2.0'') = js ''~1.3.0''"
    "specifier_after example_env example_argv (js ''dependencies'') (js ''left-pad'') (js ''^1.2.0'') = js ''^1.3.0''"
    "specifier_after example_env example_argv (js ''dependencies'') (js ''is-odd'')
       (js ''git+https://example/repo.git'') = js ''git+https://example/repo.git''"
    by (simp_all add: specifier_after_def classify_def selection_def p example_matches
          example_resolved example_resolved_is_odd decide_def example_env_sel gt_values
          replace_values js_inject)
qed

lemma example_pkg_after: "pkg_after example_env example_argv example_pkg = updated_pkg"
  by (intro ext)
    (simp add: pkg_after_def example_pkg_def updated_pkg_def example_specifier_after)

lemma example_written:
  "unparse (example_ast
      [1 := ValueString (js ''devDependencies'') (js ''left-pad'') (34 # js ''~1.3.0'' @ [34]) (js ''~1.3.0''),
       3 := ValueString (js ''dependencies'') (js ''left-pad'') (34 # js ''^1.3.0'' @ [34]) (js ''^1.3.0'')])
   = unparse updated_ast"
  by (simp add: updated_ast_def js_def)












lemma padded_version_not_recaptured:
  "replace (js ''^1.2.0'') (js ''1.2.0'') (js '' 1.3.0'') = js ''^ 1.3.0''"
  "specifier_match (js ''^ 1.3.0'') = Some (js ''1.3.0'')"
  "js ''1.3.0'' \<noteq> js '' 1.3.0''"
  by (simp_all add: replace_def specifier_match_def char_classes)

section \<open>The claims\<close>

text \<open>
  C6 (as amended). For every entry that passes selection, \<^verbatim>\<open>mixin\<close> puts the entry in
  state check exactly when its specifier matches the pattern of line 113, read as a
  grammar: optional white space, an optional \<^verbatim>\<open>^\<close> or \<^verbatim>\<open>~\<close> followed by optional
  white space, a token that starts with a digit and has no \<^verbatim>\<open><\<close>, \<^verbatim>\<open>>\<close>, \<^verbatim>\<open>=\<close>,
  \<^verbatim>\<open>|\<close> or white space, and optional trailing white space; the token is captured as the
  pinned version. Every other entry that passes selection is skipped. A name is a key
  of \<^verbatim>\<open>checked\<close>, and so sent to the resolver, only when one of its entries is in state
  check.
\<close>

theorem specifier_grammar_decides_check:
  assumes "selection env (patterns av) module = Inr Todo"
  shows "\<exists>sp. classify env av sec module s = Inr sp \<and> sOld sp = s
           \<and> (state sp = Check \<or> state sp = Skipped)
           \<and> (\<forall>v. (state sp = Check \<and> vOld sp = v) = specifier_re s v)
           \<and> (state sp = Skipped) = (\<nexists>v. specifier_re s v)
           \<and> (\<forall>m name. (name \<in> set (checked m)) =
                 (\<exists>sps sp'. (name, sps) \<in> set m \<and> sp' \<in> set sps \<and> state sp' = Check))"
proof (cases "specifier_match s")
  case None
  then have "\<nexists>v. specifier_re s v" by (simp add: specifier_match_iff[symmetric])
  then show ?thesis
    using None classify_Todo[OF assms, of sec s] by (simp add: set_checked)
next
  case (Some m1)
  then have "\<And>v. specifier_re s v = (v = m1)" by (auto simp: specifier_match_iff[symmetric])
  then show ?thesis
    using Some classify_Todo[OF assms, of sec s] by (auto simp add: set_checked)
qed

theorem specifier_grammar_decides_check_witness:
  "selection example_env (patterns example_argv) (js ''left-pad'') = Inr Todo
   \<and> (\<exists>sp. classify example_env example_argv (js ''dependencies'') (js ''left-pad'') (js ''^1.2.0'') = Inr sp
         \<and> state sp = Check \<and> vOld sp = js ''1.2.0'')
   \<and> specifier_re (js ''^1.2.0'') (js ''1.2.0'')"
proof -
  have h: "selection example_env (patterns example_argv) (js ''left-pad'') = Inr Todo"
    by (simp add: selection_def example_argv_def)
  have r: "specifier_re (js ''^1.2.0'') (js ''1.2.0'')"
    using match_caret_1_2_0 by (simp add: specifier_match_iff)
  from specifier_grammar_decides_check[OF h, of "js ''dependencies''" "js ''^1.2.0''"] r h
  show ?thesis by blast
qed

text \<open>
  C6 as stated fails: the specifier \<^verbatim>\<open>"^ 1.2.0"\<close>, with a blank after the operator,
  is outside the grammar as the claim words it, and \<^verbatim>\<open>mixin\<close> puts it in state check.
\<close>

theorem claimed_grammar_counterexample:
  "(\<exists>sp. classify example_env example_argv (js ''dependencies'') (js ''left-pad'') (js ''^ 1.2.0'') = Inr sp
         \<and> state sp = Check \<and> vOld sp = js ''1.2.0'')
   \<and> claimed_grammar_match (js ''^ 1.2.0'') = None"
  by (simp add: classify_def selection_def example_argv_def specifier_match_def
        claimed_grammar_match_def is_version_token_def char_classes)

text \<open>
  C7. The state ignored or todo of an entry is a function of its name and the patterns:
  every spec of the inventory is the classification of its own section, name and
  specifier, whatever the other entries and their order are. With no pattern every name
  is todo. When the first pattern is negated, \<^verbatim>\<open>micromatch\<close> is given \<^verbatim>\<open>"*"\<close>
  followed by all the patterns. With the glob matching of the spec, the patterns
  \<^verbatim>\<open>["!foo-*"]\<close> make a name ignored when it matches \<^verbatim>\<open>foo-*\<close> and todo otherwise.
\<close>

theorem selection_by_name_and_patterns:
  "selection env [] name = Inr Todo
   \<and> (negated p \<longrightarrow>
        selection env (p # ps) name =
          (case micromatch env [name] (js ''*'' # p # ps) of
             Inl x \<Rightarrow> Inl (Thrown x)
           | Inr ms \<Rightarrow> Inr (if ms \<noteq> [] then Todo else Ignored)))
   \<and> (micromatch env = glob_micromatch \<longrightarrow>
        selection env [js ''!foo-*''] name =
          Inr (if glob (js ''foo-*'') name then Ignored else Todo))
   \<and> (build_manifest env av pk = Inr m \<longrightarrow>
        (\<forall>n sps sp. (n, sps) \<in> set m \<and> sp \<in> set sps \<longrightarrow>
           classify env av (sect sp) n (sOld sp) = Inr sp
           \<and> (state sp = Ignored) = (selection env (patterns av) n = Inr Ignored)
           \<and> (state sp \<noteq> Ignored) = (selection env (patterns av) n = Inr Todo)))"
proof (intro conjI impI allI)
  show "selection env [] name = Inr Todo" by (rule selection_nil)
next
  assume "negated p"
  then show "selection env (p # ps) name =
          (case micromatch env [name] (js ''*'' # p # ps) of
             Inl x \<Rightarrow> Inl (Thrown x)
           | Inr ms \<Rightarrow> Inr (if ms \<noteq> [] then Todo else Ignored))"
    by (simp add: selection_def split: sum.splits)
next
  assume "micromatch env = glob_micromatch"
  then show "selection env [js ''!foo-*''] name =
          Inr (if glob (js ''foo-*'') name then Ignored else Todo)"
    by (simp add: selection_def glob_micromatch_def included_def negated_def js_def glob_star)
next
  fix n sps sp
  assume b: "build_manifest env av pk = Inr m" and "(n, sps) \<in> set m \<and> sp \<in> set sps"
  then have c: "classify env av (sect sp) n (sOld sp) = Inr sp"
    using classified_build[OF b] by (auto simp: classified_def)
  then show "classify env av (sect sp) n (sOld sp) = Inr sp" .
  show "(state sp = Ignored) = (selection env (patterns av) n = Inr Ignored)"
    by (rule classify_Inr(8)[OF c])
  have "selection env (patterns av) n = Inr Todo \<or> selection env (patterns av) n = Inr Ignored"
    using c by (auto simp: classify_def selection_def split: sum.splits list.splits if_splits)
  then show "(state sp \<noteq> Ignored) = (selection env (patterns av) n = Inr Todo)"
    using classify_Inr(8)[OF c] by auto
qed

theorem selection_by_name_and_patterns_witness:
  "negated (js ''!foo-*'') \<and> micromatch example_env = glob_micromatch
   \<and> selection example_env [js ''!foo-*''] (js ''foo-bar'') = Inr Ignored
   \<and> selection example_env [js ''!foo-*''] (js ''left-pad'') = Inr Todo
   \<and> (\<exists>m n sps sp. build_manifest example_env example_argv example_pkg = Inr m
         \<and> (n, sps) \<in> set m \<and> sp \<in> set sps
         \<and> classify example_env example_argv (sect sp) n (sOld sp) = Inr sp)"
proof -
  have n: "negated (js ''!foo-*'')" by (simp add: negated_def js_def)
  have e: "micromatch example_env = glob_micromatch" by (simp add: example_env_def)
  have g: "glob (js ''foo-*'') (js ''foo-bar'')" "\<not> glob (js ''foo-*'') (js ''left-pad'')"
    by (simp_all add: js_def)
  let ?sp = "\<lparr>sect = js ''devDependencies'', sOld = js ''~1.2.0'', vOld = js ''1.2.0'',
              sNew = js ''~1.2.0'', vNew = js ''1.2.0'', state = Check\<rparr>"
  obtain m where m: "build_manifest example_env example_argv example_pkg = Inr m"
    and mem: "(js ''left-pad'', snd (hd m)) \<in> set m" "?sp \<in> set (snd (hd m))"
    using example_manifest by simp
  note t1 = selection_by_name_and_patterns[of example_env "js ''foo-bar''" "js ''!foo-*''" "[]" example_argv example_pkg m]
  note t2 = selection_by_name_and_patterns[of example_env "js ''left-pad''" "js ''!foo-*''" "[]" example_argv example_pkg m]
  have "selection example_env [js ''!foo-*''] (js ''foo-bar'') = Inr Ignored"
    using t1 e g(1) by simp
  moreover have "selection example_env [js ''!foo-*''] (js ''left-pad'') = Inr Todo"
    using t2 e g(2) by simp
  moreover have "classify example_env example_argv (sect ?sp) (js ''left-pad'') (sOld ?sp) = Inr ?sp"
    using t1 m mem by blast
  ultimately show ?thesis using n e m mem by blast
qed

text \<open>
  C2 (as amended). For every entry in state check whose pinned version is greater than
  the resolved version under the ordering of \<^verbatim>\<open>semver.gt\<close>, the merge step leaves the
  entry in state kept; its original specifier, the tree and the flag \<^verbatim>\<open>updates\<close> are
  unchanged. Its \<^verbatim>\<open>sNew\<close> is the bare resolved version (line 203), not the original
  specifier.
\<close>

theorem lower_version_is_kept:
  assumes "state sp = Check" "semver_gt env (vOld sp) vN = Inr True"
  shows "merge_spec env av name vN sp a u = Inr (sp\<lparr>vNew := vN, sNew := vN, state := Kept\<rparr>, a, u)
         \<and> sOld (sp\<lparr>vNew := vN, sNew := vN, state := Kept\<rparr>) = sOld sp"
  using assms by (simp add: merge_spec_def Let_def)

theorem lower_version_is_kept_witness:
  "state pinned_ahead = Check
   \<and> semver_gt example_env (vOld pinned_ahead) (js ''1.0.0'') = Inr True
   \<and> merge_spec example_env example_argv (js ''left-pad'') (js ''1.0.0'') pinned_ahead example_ast False =
        Inr (pinned_ahead\<lparr>vNew := js ''1.0.0'', sNew := js ''1.0.0'', state := Kept\<rparr>, example_ast, False)"
  using lower_version_is_kept[OF pinned_ahead_check(1) example_gt(2),
          of example_argv "js ''left-pad''" example_ast False]
    pinned_ahead_check(1) example_gt(2)
  by simp

text \<open>
  C2 as stated fails: the entry \<^verbatim>\<open>"^2.0.0"\<close> with the registry at \<^verbatim>\<open>1.0.0\<close> is kept,
  and its new specifier is \<^verbatim>\<open>"1.0.0"\<close>, not \<^verbatim>\<open>"^2.0.0"\<close>.
\<close>

theorem kept_new_specifier_counterexample:
  "state pinned_ahead = Check
   \<and> semver_gt example_env (vOld pinned_ahead) (js ''1.0.0'') = Inr True
   \<and> merge_spec example_env example_argv (js ''left-pad'') (js ''1.0.0'') pinned_ahead example_ast False =
        Inr (pinned_ahead\<lparr>vNew := js ''1.0.0'', sNew := js ''1.0.0'', state := Kept\<rparr>, example_ast, False)
   \<and> sNew (pinned_ahead\<lparr>vNew := js ''1.0.0'', sNew := js ''1.0.0'', state := Kept\<rparr>) \<noteq> sOld pinned_ahead"
  by (simp add: merge_spec_def pinned_ahead_def example_env_sel gt_values js_inject)




text \<open>
  C10. Let \<^verbatim>\<open>semver.gt\<close> throw on every string with a dollar sign, as it does on
  every string that is no version. For every entry in state check (its pinned version
  captured from its specifier), the merge step never throws the error of line 216; and
  when the entry becomes updated, the resolved version differs from the pinned version,
  the new specifier is the old one with the resolved version in place of the pinned
  one, and it differs from the old one.
\<close>

theorem substitution_error_unreachable:
  assumes "semver_validates env" "state sp = Check" "specifier_match (sOld sp) = Some (vOld sp)"
  shows "merge_spec env av name vN sp a u \<noteq> Inl (FailedToUpdate n s v w)
         \<and> (\<forall>sp' a' u'. merge_spec env av name vN sp a u = Inr (sp', a', u') \<and> state sp' = Updated \<longrightarrow>
               vNew sp' \<noteq> vOld sp'
               \<and> (\<exists>pre post. sOld sp' = pre @ vOld sp' @ post \<and> sNew sp' = pre @ vNew sp' @ post)
               \<and> sNew sp' \<noteq> sOld sp')"
proof (cases "vOld sp \<noteq> vN \<and> semver_gt env (vOld sp) vN = Inr False")
  case False
  then show ?thesis
    using assms(2) by (auto simp: merge_spec_def Let_def split: sum.splits bool.splits)
next
  case True
  then have d: "36 \<notin> set vN" using assms(1) unfolding semver_validates_def by blast
  from replace_specifier[OF assms(3) d] obtain pre post where
    s: "sOld sp = pre @ vOld sp @ post" and r: "replace (sOld sp) (vOld sp) vN = pre @ vN @ post"
    by blast
  have ne: "pre @ vN @ post \<noteq> sOld sp" "vN \<noteq> vOld sp" using s True by auto
  show ?thesis
    using assms(2) True r ne s
    by (auto simp: merge_spec_def Let_def split: list.splits if_splits)
qed

theorem substitution_error_unreachable_witness:
  "semver_validates example_env \<and> state example_spec = Check
   \<and> specifier_match (sOld example_spec) = Some (vOld example_spec)
   \<and> (\<exists>sp' a' u'.
        merge_spec example_env example_argv (js ''left-pad'') (js ''1.3.0'') example_spec example_ast False
          = Inr (sp', a', u')
        \<and> state sp' = Updated \<and> vNew sp' \<noteq> vOld sp' \<and> sNew sp' \<noteq> sOld sp')"
proof -
  note t = substitution_error_unreachable[OF example_semver_validates example_spec_check,
      of example_argv "js ''left-pad''" "js ''1.3.0''" example_ast False]
  let ?sp = "example_spec\<lparr>vNew := js ''1.3.0'', sNew := js ''^1.3.0'', state := Updated\<rparr>"
  have "state ?sp = Updated" by simp
  with t left_pad_scenario have "vNew ?sp \<noteq> vOld ?sp \<and> sNew ?sp \<noteq> sOld ?sp"
    by blast
  then show ?thesis
    using example_semver_validates example_spec_check left_pad_scenario by auto
qed

text \<open>
  C4 (as amended). A run that ends with an error leaves the file as it was and exits
  with code 1, and every failure ends the run with an error (the last part of the
  theorem): a text that \<^verbatim>\<open>JSON.parse\<close> or \<^verbatim>\<open>JsonAsty.parse\<close> rejects, the failed
  lookup of a name of \<^verbatim>\<open>checked\<close>, an entry to update whose new specifier equals the old
  one or, without \<^verbatim>\<open>argv.nop\<close>, for which the query does not find exactly one node. So
  a run returns, with exit code 0, only when nothing failed: the file was read and
  parsed, every name of \<^verbatim>\<open>checked\<close> was looked up and resolved, and for every entry in
  state updated the new specifier differs from the old one and, without \<^verbatim>\<open>argv.nop\<close>,
  the query found exactly one node. Then \<^verbatim>\<open>updates\<close> is true exactly
  when an entry of the inventory is in state updated, and the file is written exactly
  when \<^verbatim>\<open>updates\<close> is true and \<^verbatim>\<open>argv.nop\<close> is not set. With \<^verbatim>\<open>argv.nop\<close> the file
  stays as it was whatever happens, the run never ends with the error of line 226, and
  its result is the same for every tree that \<^verbatim>\<open>JsonAsty.parse\<close> may return, the empty
  tree included: the tree has no part in it. Whenever the run without \<^verbatim>\<open>argv.nop\<close>
  returns, the run with it returns the same inventory, the same flag and the same
  report.
\<close>

theorem write_guard:
  "(\<forall>e. run env av = Inl e \<longrightarrow>
      file_after env (run env av) = readFile env \<and> exit_code (run env av) = 1)
   \<and> (\<forall>out. run env av = Inr out \<longrightarrow>
        exit_code (run env av) = 0
        \<and> (out_updates out \<longleftrightarrow>
             (\<exists>n sps sp. (n, sps) \<in> set (out_manifest out) \<and> sp \<in> set sps \<and> state sp = Updated))
        \<and> (out_written out \<noteq> None \<longleftrightarrow> out_updates out \<and> \<not> nop av)
        \<and> (out_written out = None \<longrightarrow> file_after env (run env av) = readFile env)
        \<and> (\<exists>pkgData pk a0 m0.
              readFile env = Some pkgData \<and> JSON_parse env pkgData = Inr pk
              \<and> JsonAsty_parse env pkgData = Inr a0 \<and> build_manifest env av pk = Inr m0
              \<and> (\<forall>name\<in>set (checked m0). \<exists>data v. lookup env name = Inr (name, data)
                    \<and> resolve env av name data = Inr v)
              \<and> (\<forall>n sps sp. (n, sps) \<in> set (out_manifest out) \<and> sp \<in> set sps \<and> state sp = Updated \<longrightarrow>
                    sNew sp \<noteq> sOld sp \<and> (\<not> nop av \<longrightarrow> (\<exists>i. execute a0 (sect sp) n = [i]))))
        \<and> run env (av\<lparr>nop := True\<rparr>) = Inr (out\<lparr>out_written := None\<rparr>)
        \<and> report (av\<lparr>nop := True\<rparr>) (out_manifest (out\<lparr>out_written := None\<rparr>)) = report av (out_manifest out))
   \<and> file_after env (run env (av\<lparr>nop := True\<rparr>)) = readFile env
   \<and> (\<forall>n s. run env (av\<lparr>nop := True\<rparr>) \<noteq> Inl (FailedToFind n s))
   \<and> (\<forall>tree. run (env\<lparr>JsonAsty_parse := \<lambda>d. Inr tree\<rparr>) (av\<lparr>nop := True\<rparr>) =
               run (env\<lparr>JsonAsty_parse := \<lambda>d. Inr []\<rparr>) (av\<lparr>nop := True\<rparr>))
   \<and> (\<forall>pkgData. readFile env = Some pkgData \<longrightarrow>
        (\<forall>x. JSON_parse env pkgData = Inl x \<longrightarrow> run env av = Inl (Thrown x))
        \<and> (\<forall>pk x. JSON_parse env pkgData = Inr pk \<and> JsonAsty_parse env pkgData = Inl x \<longrightarrow>
              run env av = Inl (Thrown x))
        \<and> (\<forall>pk a0 m0. JSON_parse env pkgData = Inr pk \<and> JsonAsty_parse env pkgData = Inr a0
              \<and> build_manifest env av pk = Inr m0 \<longrightarrow>
              (\<forall>name e. name \<in> set (checked m0) \<and> lookup env name = Inl e \<longrightarrow>
                  (\<exists>e'. run env av = Inl e'))
              \<and> (\<forall>n sps sp v. (n, sps) \<in> set m0 \<and> sp \<in> set sps \<and> state sp = Check
                    \<and> resolved env av n = Some v \<and> state (decide env v sp) = Updated
                    \<and> (sNew (decide env v sp) = sOld sp
                         \<or> (\<not> nop av \<and> (\<forall>i. execute a0 (sect sp) n \<noteq> [i]))) \<longrightarrow>
                  (\<exists>e'. run env av = Inl e'))))"
proof (intro conjI allI impI)
  fix e assume "run env av = Inl e"
  then show "file_after env (run env av) = readFile env" "exit_code (run env av) = 1"
    by (simp_all add: file_after_def exit_code_def)
next
  fix out assume r: "run env av = Inr out"
  show "exit_code (run env av) = 0" using r by (simp add: exit_code_def)
  show "out_updates out \<longleftrightarrow>
             (\<exists>n sps sp. (n, sps) \<in> set (out_manifest out) \<and> sp \<in> set sps \<and> state sp = Updated)"
    unfolding run_updates[OF r] by (auto simp: updated_entries_def)
  show "out_written out \<noteq> None \<longleftrightarrow> out_updates out \<and> \<not> nop av"
    using r by (rule run_Inr) simp
  show "file_after env (run env av) = readFile env" if "out_written out = None"
    using r that by (simp add: file_after_def)
  show "\<exists>pkgData pk a0 m0.
              readFile env = Some pkgData \<and> JSON_parse env pkgData = Inr pk
              \<and> JsonAsty_parse env pkgData = Inr a0 \<and> build_manifest env av pk = Inr m0
              \<and> (\<forall>name\<in>set (checked m0). \<exists>data v. lookup env name = Inr (name, data)
                    \<and> resolve env av name data = Inr v)
              \<and> (\<forall>n sps sp. (n, sps) \<in> set (out_manifest out) \<and> sp \<in> set sps \<and> state sp = Updated \<longrightarrow>
                    sNew sp \<noteq> sOld sp \<and> (\<not> nop av \<longrightarrow> (\<exists>i. execute a0 (sect sp) n = [i])))"
    by (rule nothing_failed[OF r])
  show "run env (av\<lparr>nop := True\<rparr>) = Inr (out\<lparr>out_written := None\<rparr>)"
    by (rule run_nop[OF r])
  show "report (av\<lparr>nop := True\<rparr>) (out_manifest (out\<lparr>out_written := None\<rparr>)) = report av (out_manifest out)"
    by (simp add: report_def)
next
  show "file_after env (run env (av\<lparr>nop := True\<rparr>)) = readFile env"
    by (rule dry_run_writes_nothing) simp
next
  fix n s
  show "run env (av\<lparr>nop := True\<rparr>) \<noteq> Inl (FailedToFind n s)"
    by (rule dry_run_error) simp
next
  fix tree
  show "run (env\<lparr>JsonAsty_parse := \<lambda>d. Inr tree\<rparr>) (av\<lparr>nop := True\<rparr>) =
               run (env\<lparr>JsonAsty_parse := \<lambda>d. Inr []\<rparr>) (av\<lparr>nop := True\<rparr>)"
    by (rule dry_run_tree[where a = "[]" and b = tree]) simp_all
next
  fix pkgData x assume "readFile env = Some pkgData" "JSON_parse env pkgData = Inl x"
  then show "run env av = Inl (Thrown x)" by (rule failure_aborts(1))
next
  fix pkgData pk x
  assume "readFile env = Some pkgData" "JSON_parse env pkgData = Inr pk \<and> JsonAsty_parse env pkgData = Inl x"
  then show "run env av = Inl (Thrown x)" using failure_aborts(2) by blast
next
  fix pkgData pk a0 m0 name e
  assume "readFile env = Some pkgData"
    "JSON_parse env pkgData = Inr pk \<and> JsonAsty_parse env pkgData = Inr a0
       \<and> build_manifest env av pk = Inr m0"
    "name \<in> set (checked m0) \<and> lookup env name = Inl e"
  then show "\<exists>e'. run env av = Inl e'" using failure_aborts(3) by blast
next
  fix pkgData pk a0 m0 n sps sp v
  assume f: "readFile env = Some pkgData"
    and p: "JSON_parse env pkgData = Inr pk \<and> JsonAsty_parse env pkgData = Inr a0
       \<and> build_manifest env av pk = Inr m0"
    and h: "(n, sps) \<in> set m0 \<and> sp \<in> set sps \<and> state sp = Check
                    \<and> resolved env av n = Some v \<and> state (decide env v sp) = Updated
                    \<and> (sNew (decide env v sp) = sOld sp
                         \<or> (\<not> nop av \<and> (\<forall>i. execute a0 (sect sp) n \<noteq> [i])))"
  show "\<exists>e'. run env av = Inl e'"
    by (rule failure_aborts(4)[OF f p[THEN conjunct1] p[THEN conjunct2, THEN conjunct1]
          p[THEN conjunct2, THEN conjunct2] h[THEN conjunct1] h[THEN conjunct2, THEN conjunct1]
          h[THEN conjunct2, THEN conjunct2, THEN conjunct2, THEN conjunct1]
          h[THEN conjunct2, THEN conjunct2, THEN conjunct1]
          h[THEN conjunct2, THEN conjunct2, THEN conjunct2, THEN conjunct2, THEN conjunct1]
          h[THEN conjunct2, THEN conjunct2, THEN conjunct2, THEN conjunct2, THEN conjunct2]])
qed

theorem write_guard_witness:
  "(\<exists>out. run example_env example_argv = Inr out \<and> out_updates out \<and> out_written out \<noteq> None
       \<and> exit_code (run example_env example_argv) = 0
       \<and> run example_env (example_argv\<lparr>nop := True\<rparr>) = Inr (out\<lparr>out_written := None\<rparr>)
       \<and> (\<forall>n sps sp. (n, sps) \<in> set (out_manifest out) \<and> sp \<in> set sps \<and> state sp = Updated \<longrightarrow>
             sNew sp \<noteq> sOld sp \<and> (\<exists>i. execute example_ast (sect sp) n = [i])))
   \<and> (\<exists>e. run nested_env example_argv = Inl e
         \<and> file_after nested_env (run nested_env example_argv) = readFile nested_env
         \<and> exit_code (run nested_env example_argv) = 1)
   \<and> file_after nested_env (run nested_env (example_argv\<lparr>nop := True\<rparr>)) = readFile nested_env
   \<and> run nested_env (example_argv\<lparr>nop := True\<rparr>) \<noteq> Inl (FailedToFind (js ''left-pad'') (js ''dependencies''))
   \<and> run (nested_env\<lparr>JsonAsty_parse := \<lambda>d. Inr nested_ast\<rparr>) (example_argv\<lparr>nop := True\<rparr>) =
       run (nested_env\<lparr>JsonAsty_parse := \<lambda>d. Inr []\<rparr>) (example_argv\<lparr>nop := True\<rparr>)"
proof -
  obtain out where r: "run example_env example_argv = Inr out" and u: "out_updates out"
    using example_run by simp
  have n: "\<not> nop example_argv" by (simp add: example_argv_def)
  note t = write_guard[of example_env example_argv, THEN conjunct2, THEN conjunct1, rule_format, OF r]
  have 1: "exit_code (run example_env example_argv) = 0" using t by (elim conjE)
  have 2: "out_written out \<noteq> None" using t u n by blast
  have 3: "run example_env (example_argv\<lparr>nop := True\<rparr>) = Inr (out\<lparr>out_written := None\<rparr>)"
    using t by (elim conjE)
  from t obtain pkgData a0 where
    p: "readFile example_env = Some pkgData" "JsonAsty_parse example_env pkgData = Inr a0"
    and q: "\<forall>n sps sp. (n, sps) \<in> set (out_manifest out) \<and> sp \<in> set sps \<and> state sp = Updated \<longrightarrow>
                    sNew sp \<noteq> sOld sp \<and> (\<not> nop example_argv \<longrightarrow> (\<exists>i. execute a0 (sect sp) n = [i]))"
    by (elim conjE exE)
  have "pkgData = concat manifest_text" using p(1) by (simp add: example_env_sel)
  then have "a0 = example_ast" using p(2) by (simp add: example_env_sel)
  then have 4: "\<forall>n sps sp. (n, sps) \<in> set (out_manifest out) \<and> sp \<in> set sps \<and> state sp = Updated \<longrightarrow>
             sNew sp \<noteq> sOld sp \<and> (\<exists>i. execute example_ast (sect sp) n = [i])"
    using q n by simp
  have first: "\<exists>out. run example_env example_argv = Inr out \<and> out_updates out \<and> out_written out \<noteq> None
       \<and> exit_code (run example_env example_argv) = 0
       \<and> run example_env (example_argv\<lparr>nop := True\<rparr>) = Inr (out\<lparr>out_written := None\<rparr>)
       \<and> (\<forall>n sps sp. (n, sps) \<in> set (out_manifest out) \<and> sp \<in> set sps \<and> state sp = Updated \<longrightarrow>
             sNew sp \<noteq> sOld sp \<and> (\<exists>i. execute example_ast (sect sp) n = [i]))"
    using r u 1 2 3 4 by (intro exI[of _ out] conjI)
  note w = write_guard[of nested_env example_argv]
  have second: "\<exists>e. run nested_env example_argv = Inl e
         \<and> file_after nested_env (run nested_env example_argv) = readFile nested_env
         \<and> exit_code (run nested_env example_argv) = 1"
    using w[THEN conjunct1, rule_format, OF nested_run] nested_run by blast
  note w2 = w[THEN conjunct2, THEN conjunct2]
  have third: "file_after nested_env (run nested_env (example_argv\<lparr>nop := True\<rparr>)) = readFile nested_env"
    by (rule w2[THEN conjunct1])
  have fourth: "run nested_env (example_argv\<lparr>nop := True\<rparr>) \<noteq> Inl (FailedToFind (js ''left-pad'') (js ''dependencies''))"
    using w2[THEN conjunct2, THEN conjunct1] by blast
  have fifth: "run (nested_env\<lparr>JsonAsty_parse := \<lambda>d. Inr nested_ast\<rparr>) (example_argv\<lparr>nop := True\<rparr>) =
       run (nested_env\<lparr>JsonAsty_parse := \<lambda>d. Inr []\<rparr>) (example_argv\<lparr>nop := True\<rparr>)"
    using w2[THEN conjunct2, THEN conjunct2, THEN conjunct1] by blast
  show ?thesis using first second third fourth fifth by (intro conjI)
qed

text \<open>
  C4 as stated fails in its last part: for the manifest with a nested
  \<^verbatim>\<open>dependencies\<close> member the run without \<^verbatim>\<open>argv.nop\<close> ends with the error of line
  226 and reports nothing, while the run with \<^verbatim>\<open>argv.nop\<close> makes no tree query,
  returns and reports two updated rows.
\<close>

theorem dry_run_report_counterexample:
  "run nested_env example_argv = Inl (FailedToFind (js ''left-pad'') (js ''dependencies''))
   \<and> (\<exists>out. run nested_env (example_argv\<lparr>nop := True\<rparr>) = Inr out
         \<and> report example_argv (out_manifest out) =
             [(js ''left-pad'', js ''~1.2.0'', js ''~1.3.0'', Updated),
              (js ''left-pad'', js ''^1.2.0'', js ''^1.3.0'', Updated)])"
  using nested_run nested_dry_run by blast

text \<open>
  C5. The keys of \<^verbatim>\<open>checked\<close>, which are the names handed to \<^verbatim>\<open>awaityMapLimit\<close>,
  hold every name once that has an entry in state check, in however many sections, and
  no other name. A run that returns has one result per key, and the merge takes every
  array of the inventory to an array of the same length: an entry that was not in state
  check stays as it was, and when the name has entries in state check, the results hold
  exactly one lookup of that name, and every such entry is kept or updated with the
  version resolved from that one lookup as its \<^verbatim>\<open>vNew\<close>. So all entries of one name
  carry the same resolved version.
\<close>

theorem one_lookup_per_name:
  "(build_manifest env av pk = Inr m0 \<longrightarrow>
      distinct (checked m0)
      \<and> (\<forall>name. count_list (checked m0) name =
            (if \<exists>sps sp. (name, sps) \<in> set m0 \<and> sp \<in> set sps \<and> state sp = Check then 1 else 0)))
   \<and> (run env av = Inr out \<longrightarrow>
        (\<exists>pkgData pk m0 rs.
            readFile env = Some pkgData \<and> JSON_parse env pkgData = Inr pk
            \<and> build_manifest env av pk = Inr m0
            \<and> mapLimit (lookup env) (checked m0) = Inr rs \<and> map fst rs = checked m0
            \<and> map fst (out_manifest out) = map fst m0
            \<and> (\<forall>name sps. (name, sps) \<in> set m0 \<longrightarrow>
                 (\<exists>sps'. (name, sps') \<in> set (out_manifest out) \<and> length sps' = length sps
                    \<and> (\<forall>i<length sps. state (sps ! i) \<noteq> Check \<longrightarrow> sps' ! i = sps ! i)
                    \<and> ((\<exists>i<length sps. state (sps ! i) = Check) \<longrightarrow>
                         (\<exists>data v. filter (\<lambda>r. fst r = name) rs = [(name, data)]
                            \<and> lookup env name = Inr (name, data)
                            \<and> resolve env av name data = Inr v
                            \<and> (\<forall>i<length sps. state (sps ! i) = Check \<longrightarrow>
                                  vNew (sps' ! i) = v
                                  \<and> (state (sps' ! i) = Kept \<or> state (sps' ! i) = Updated)))))))
        \<and> (\<forall>name sps sp. (name, sps) \<in> set (out_manifest out) \<and> sp \<in> set sps
              \<and> (state sp = Kept \<or> state sp = Updated) \<longrightarrow>
              resolved env av name = Some (vNew sp)))"
proof (intro conjI impI allI)
  show "distinct (checked m0)" by (rule distinct_checked)
next
  fix name
  show "count_list (checked m0) name =
            (if \<exists>sps sp. (name, sps) \<in> set m0 \<and> sp \<in> set sps \<and> state sp = Check then 1 else 0)"
    by (simp add: count_list_distinct[OF distinct_checked] set_checked)
next
  assume r: "run env av = Inr out"
  from r obtain pkgData pk a0 m0 rs a' where
    1: "readFile env = Some pkgData" "JSON_parse env pkgData = Inr pk"
    and 4: "build_manifest env av pk = Inr m0"
    and 5: "mapLimit (lookup env) (checked m0) = Inr rs"
    and 6: "forEach (merge_result env av) (m0, a0, False) rs = Inr (out_manifest out, a', out_updates out)"
    by (rule run_Inr)
  have p: "out_manifest out = plan env av m0" by (rule run_plan[OF 4 5 6])
  note l = lookup_results[OF 5]
  have drs: "distinct (map fst rs)" by (simp add: l(1) distinct_checked)
  have each: "\<exists>sps'. (name, sps') \<in> set (out_manifest out) \<and> length sps' = length sps
                    \<and> (\<forall>i<length sps. state (sps ! i) \<noteq> Check \<longrightarrow> sps' ! i = sps ! i)
                    \<and> ((\<exists>i<length sps. state (sps ! i) = Check) \<longrightarrow>
                         (\<exists>data v. filter (\<lambda>r. fst r = name) rs = [(name, data)]
                            \<and> lookup env name = Inr (name, data)
                            \<and> resolve env av name data = Inr v
                            \<and> (\<forall>i<length sps. state (sps ! i) = Check \<longrightarrow>
                                  vNew (sps' ! i) = v
                                  \<and> (state (sps' ! i) = Kept \<or> state (sps' ! i) = Updated))))"
    if m: "(name, sps) \<in> set m0" for name sps
  proof -
    let ?sps' = "case resolved env av name of None \<Rightarrow> sps | Some v \<Rightarrow> map (decide env v) sps"
    have a: "(name, ?sps') \<in> set (out_manifest out)" unfolding p by (rule plan_entry[OF m])
    have b: "length ?sps' = length sps" by (simp split: option.splits)
    have c: "\<forall>i<length sps. state (sps ! i) \<noteq> Check \<longrightarrow> ?sps' ! i = sps ! i"
      by (simp add: decide_not_check split: option.splits)
    have d: "\<exists>data v. filter (\<lambda>r. fst r = name) rs = [(name, data)]
                            \<and> lookup env name = Inr (name, data)
                            \<and> resolve env av name data = Inr v
                            \<and> (\<forall>i<length sps. state (sps ! i) = Check \<longrightarrow>
                                  vNew (?sps' ! i) = v
                                  \<and> (state (?sps' ! i) = Kept \<or> state (?sps' ! i) = Updated))"
      if "\<exists>i<length sps. state (sps ! i) = Check"
    proof -
      from that obtain i where i: "i < length sps" "state (sps ! i) = Check" by blast
      then have "name \<in> set (checked m0)" using m unfolding set_checked by (metis (mono_tags, lifting) mem_Collect_eq nth_mem)
      then have "name \<in> set (map fst rs)" by (simp add: l(1))
      then obtain data where data: "(name, data) \<in> set rs" by auto
      then have lk: "lookup env name = Inr (name, data)" using l(2) by fastforce
      from merged_resolved[OF 5 6 \<open>name \<in> set (checked m0)\<close>] obtain v where
        v: "resolved env av name = Some v" by blast
      then have rs: "resolve env av name data = Inr v"
        using lk by (simp add: resolved_def split: sum.splits)
      have "vNew (?sps' ! j) = v \<and> (state (?sps' ! j) = Kept \<or> state (?sps' ! j) = Updated)"
        if "j < length sps" "state (sps ! j) = Check" for j
        using that v decide_state(1,2)[of "sps ! j" env v] by simp
      then show ?thesis
        using filter_key_distinct[OF drs data] lk rs by blast
    qed
    show ?thesis using a b c d by blast
  qed
  show "\<exists>pkgData pk m0 rs.
            readFile env = Some pkgData \<and> JSON_parse env pkgData = Inr pk
            \<and> build_manifest env av pk = Inr m0
            \<and> mapLimit (lookup env) (checked m0) = Inr rs \<and> map fst rs = checked m0
            \<and> map fst (out_manifest out) = map fst m0
            \<and> (\<forall>name sps. (name, sps) \<in> set m0 \<longrightarrow>
                 (\<exists>sps'. (name, sps') \<in> set (out_manifest out) \<and> length sps' = length sps
                    \<and> (\<forall>i<length sps. state (sps ! i) \<noteq> Check \<longrightarrow> sps' ! i = sps ! i)
                    \<and> ((\<exists>i<length sps. state (sps ! i) = Check) \<longrightarrow>
                         (\<exists>data v. filter (\<lambda>r. fst r = name) rs = [(name, data)]
                            \<and> lookup env name = Inr (name, data)
                            \<and> resolve env av name data = Inr v
                            \<and> (\<forall>i<length sps. state (sps ! i) = Check \<longrightarrow>
                                  vNew (sps' ! i) = v
                                  \<and> (state (sps' ! i) = Kept \<or> state (sps' ! i) = Updated))))))"
    using 1 4 5 l(1) each p plan_keys[of env av m0]
    by (intro exI[of _ pkgData] exI[of _ pk] exI[of _ m0] exI[of _ rs]) simp
  fix name sps sp
  assume a: "(name, sps) \<in> set (out_manifest out) \<and> sp \<in> set sps
              \<and> (state sp = Kept \<or> state sp = Updated)"
  from a plan_mem[of name sps env av m0] obtain sps0 where
    s0: "(name, sps0) \<in> set m0"
    "sps = (case resolved env av name of None \<Rightarrow> sps0 | Some v \<Rightarrow> map (decide env v) sps0)"
    unfolding p by blast
  note c = classified_states(1)[OF classified_build[OF 4] s0(1)]
  show "resolved env av name = Some (vNew sp)"
  proof (cases "resolved env av name")
    case None
    then have "sp \<in> set sps0" using a s0(2) by simp
    then show ?thesis using c[of sp] a by auto
  next
    case (Some v)
    then obtain sp0 where sp0: "sp0 \<in> set sps0" "sp = decide env v sp0" using a s0(2) by auto
    show ?thesis
    proof (cases "state sp0 = Check")
      case True
      then show ?thesis using sp0 Some by (simp add: decide_state(2))
    next
      case False
      then have "sp = sp0" using sp0 by (simp add: decide_not_check)
      then show ?thesis using c[OF sp0(1)] a False by auto
    qed
  qed
qed


theorem one_lookup_per_name_witness:
  "(\<exists>m0. build_manifest example_env example_argv example_pkg = Inr m0
       \<and> length (filter (\<lambda>sp. state sp = Check) (snd (hd m0))) = 2
       \<and> count_list (checked m0) (js ''left-pad'') = 1
       \<and> count_list (checked m0) (js ''is-odd'') = 0)
   \<and> (\<exists>out sps' data v. run example_env example_argv = Inr out
         \<and> (js ''left-pad'', sps') \<in> set (out_manifest out) \<and> length sps' = 2
         \<and> lookup example_env (js ''left-pad'') = Inr (js ''left-pad'', data)
         \<and> resolve example_env example_argv (js ''left-pad'') data = Inr v
         \<and> vNew (sps' ! 0) = v \<and> vNew (sps' ! 1) = v \<and> v = js ''1.3.0'')"
proof -
  let ?spA = "\<lparr>sect = js ''devDependencies'', sOld = js ''~1.2.0'', vOld = js ''1.2.0'',
              sNew = js ''~1.2.0'', vNew = js ''1.2.0'', state = Check\<rparr>"
  let ?spB = "\<lparr>sect = js ''dependencies'', sOld = js ''^1.2.0'', vOld = js ''1.2.0'',
              sNew = js ''^1.2.0'', vNew = js ''1.2.0'', state = Check\<rparr>"
  obtain m0 where m0: "build_manifest example_env example_argv example_pkg = Inr m0"
    and h: "hd m0 = (js ''left-pad'', [?spA, ?spB])"
    and mem0: "(js ''left-pad'', [?spA, ?spB]) \<in> set m0"
    and c: "checked m0 = [js ''left-pad'']"
    using example_manifest example_checked by simp
  obtain out where out: "run example_env example_argv = Inr out"
    using example_run by simp
  note t = one_lookup_per_name[of example_env example_argv example_pkg m0 out]
  have "count_list (checked m0) (js ''left-pad'') = 1" "count_list (checked m0) (js ''is-odd'') = 0"
    using t m0 c by (simp_all add: js_inject)
  then have first: "\<exists>m0. build_manifest example_env example_argv example_pkg = Inr m0
       \<and> length (filter (\<lambda>sp. state sp = Check) (snd (hd m0))) = 2
       \<and> count_list (checked m0) (js ''left-pad'') = 1
       \<and> count_list (checked m0) (js ''is-odd'') = 0"
    using m0 h by (intro exI[of _ m0]) simp
  from t[THEN conjunct2, THEN mp, OF out, THEN conjunct1] obtain pkgData pk m1 rs where
    r: "readFile example_env = Some pkgData" "JSON_parse example_env pkgData = Inr pk"
      "build_manifest example_env example_argv pk = Inr m1"
    and e: "\<forall>name sps. (name, sps) \<in> set m1 \<longrightarrow>
                 (\<exists>sps'. (name, sps') \<in> set (out_manifest out) \<and> length sps' = length sps
                    \<and> (\<forall>i<length sps. state (sps ! i) \<noteq> Check \<longrightarrow> sps' ! i = sps ! i)
                    \<and> ((\<exists>i<length sps. state (sps ! i) = Check) \<longrightarrow>
                         (\<exists>data v. filter (\<lambda>r. fst r = name) rs = [(name, data)]
                            \<and> lookup example_env name = Inr (name, data)
                            \<and> resolve example_env example_argv name data = Inr v
                            \<and> (\<forall>i<length sps. state (sps ! i) = Check \<longrightarrow>
                                  vNew (sps' ! i) = v
                                  \<and> (state (sps' ! i) = Kept \<or> state (sps' ! i) = Updated)))))"
    by (elim exE conjE)
  have "pkgData = concat manifest_text" using r(1) by (simp add: example_env_sel)
  then have "pk = example_pkg" using r(2) by (simp add: example_env_sel)
  then have "m1 = m0" using r(3) m0 by simp
  then have mem1: "(js ''left-pad'', [?spA, ?spB]) \<in> set m1" using mem0 by simp
  from e[rule_format, OF mem1] obtain sps' where
    s: "(js ''left-pad'', sps') \<in> set (out_manifest out)" "length sps' = length [?spA, ?spB]"
    and f: "(\<exists>i<length [?spA, ?spB]. state ([?spA, ?spB] ! i) = Check) \<longrightarrow>
                         (\<exists>data v. filter (\<lambda>r. fst r = js ''left-pad'') rs = [(js ''left-pad'', data)]
                            \<and> lookup example_env (js ''left-pad'') = Inr (js ''left-pad'', data)
                            \<and> resolve example_env example_argv (js ''left-pad'') data = Inr v
                            \<and> (\<forall>i<length [?spA, ?spB]. state ([?spA, ?spB] ! i) = Check \<longrightarrow>
                                  vNew (sps' ! i) = v
                                  \<and> (state (sps' ! i) = Kept \<or> state (sps' ! i) = Updated)))"
    by (elim exE conjE)
  have "\<exists>i<length [?spA, ?spB]. state ([?spA, ?spB] ! i) = Check" by (intro exI[of _ 0]) simp
  from f[THEN mp, OF this] obtain data v where
    d: "lookup example_env (js ''left-pad'') = Inr (js ''left-pad'', data)"
      "resolve example_env example_argv (js ''left-pad'') data = Inr v"
    and g: "\<forall>i<length [?spA, ?spB]. state ([?spA, ?spB] ! i) = Check \<longrightarrow>
                                  vNew (sps' ! i) = v
                                  \<and> (state (sps' ! i) = Kept \<or> state (sps' ! i) = Updated)"
    by (elim exE conjE)
  have v0: "vNew (sps' ! 0) = v" using g[rule_format, of 0] by simp
  have v1: "vNew (sps' ! 1) = v" using g[rule_format, of 1] by simp
  have dd: "data = \<lparr>dist_tags_latest = Some (js ''1.3.0''), versions = [js ''1.2.0'', js ''1.3.0'']\<rparr>"
    using d(1) by (simp add: example_lookup)
  have "v = js ''1.3.0''" using d(2) unfolding dd by (simp add: example_resolve)
  then have "\<exists>out sps' data v. run example_env example_argv = Inr out
         \<and> (js ''left-pad'', sps') \<in> set (out_manifest out) \<and> length sps' = 2
         \<and> lookup example_env (js ''left-pad'') = Inr (js ''left-pad'', data)
         \<and> resolve example_env example_argv (js ''left-pad'') data = Inr v
         \<and> vNew (sps' ! 0) = v \<and> vNew (sps' ! 1) = v \<and> v = js ''1.3.0''"
    using out s d v0 v1
    by (intro exI[of _ out] exI[of _ sps'] exI[of _ data] exI[of _ v]) simp
  with first show ?thesis by blast
qed

text \<open>
  C1. Let the tree be a faithful parse of the file: rendered as it is, it gives the
  file's text back. When a run rewrites the file, the text written and the original
  text are the renderings of two trees with the same nodes in the same places, and a
  node of the written tree differs from the original one only when the query selects it
  for an entry in state updated, in which case it is that node set to the entry's new
  specifier (text \<^verbatim>\<open>JSON.stringify(sNew)\<close>). Every other span is unchanged.
\<close>

theorem format_preserved:
  assumes "run env av = Inr out" "out_written out = Some t"
    and "readFile env = Some pkgData" "JsonAsty_parse env pkgData = Inr a0"
    and "unparse a0 = pkgData"
  shows "\<exists>a'. pkgData = concat (map node_text a0) \<and> t = concat (map node_text a')
           \<and> length a' = length a0
           \<and> (\<forall>i<length a0.
                 a' ! i = a0 ! i
                 \<or> (\<exists>n sps sp. (n, sps) \<in> set (out_manifest out) \<and> sp \<in> set sps
                       \<and> state sp = Updated \<and> selects (sect sp) n (a0 ! i)
                       \<and> a' ! i = node_set (a0 ! i) (JSON_stringify env (sNew sp)) (sNew sp)))"
proof -
  from assms(1) obtain pkgData' pk a0' m0 rs a' where
    1: "readFile env = Some pkgData'" "JsonAsty_parse env pkgData' = Inr a0'"
    and 4: "build_manifest env av pk = Inr m0"
    and 6: "forEach (merge_result env av) (m0, a0', False) rs = Inr (out_manifest out, a', out_updates out)"
    and 7: "out_written out = (if out_updates out \<and> \<not> nop av then Some (unparse a') else None)"
    by (rule run_Inr)
  have e: "a0' = a0" using 1 assms(3,4) by simp
  have "merge_inv env a0 (out_manifest out, a', out_updates out)"
    using merge_inv_forEach[OF 6 merge_inv_initial[OF classified_build[OF 4]]] e by simp
  then have p: "patched env (updated_entries (out_manifest out)) a0 a'"
    by (simp add: merge_inv_def)
  have t: "t = unparse a'" using 7 assms(2) by (simp split: if_splits)
  have "length a' = length a0" using p by (simp add: patched_def)
  moreover have "a' ! i = a0 ! i
                 \<or> (\<exists>n sps sp. (n, sps) \<in> set (out_manifest out) \<and> sp \<in> set sps
                       \<and> state sp = Updated \<and> selects (sect sp) n (a0 ! i)
                       \<and> a' ! i = node_set (a0 ! i) (JSON_stringify env (sNew sp)) (sNew sp))"
    if "i < length a0" for i
    using p that unfolding patched_def updated_entries_def by blast
  ultimately show ?thesis
    using t assms(5) unfolding unparse_def by blast
qed

theorem format_preserved_witness:
  "(\<exists>out t a'. run example_env example_argv = Inr out \<and> out_written out = Some t
       \<and> readFile example_env = Some (concat manifest_text)
       \<and> JsonAsty_parse example_env (concat manifest_text) = Inr example_ast
       \<and> unparse example_ast = concat manifest_text
       \<and> t = concat (map node_text a') \<and> length a' = length example_ast
       \<and> a' ! 0 = example_ast ! 0 \<and> a' ! 2 = example_ast ! 2 \<and> a' ! 4 = example_ast ! 4
       \<and> a' ! 5 = example_ast ! 5 \<and> a' ! 6 = example_ast ! 6)"
proof -
  obtain out where out: "run example_env example_argv = Inr out"
    and w: "out_written out = Some (unparse (example_ast
              [1 := ValueString (js ''devDependencies'') (js ''left-pad'') (34 # js ''~1.3.0'' @ [34]) (js ''~1.3.0''),
               3 := ValueString (js ''dependencies'') (js ''left-pad'') (34 # js ''^1.3.0'' @ [34]) (js ''^1.3.0'')]))"
    using example_run by simp
  have r: "readFile example_env = Some (concat manifest_text)"
    and p: "JsonAsty_parse example_env (concat manifest_text) = Inr example_ast"
    by (simp_all add: example_env_sel)
  from format_preserved[OF out w r p example_unparse] obtain a' where
    a': "unparse (example_ast
              [1 := ValueString (js ''devDependencies'') (js ''left-pad'') (34 # js ''~1.3.0'' @ [34]) (js ''~1.3.0''),
               3 := ValueString (js ''dependencies'') (js ''left-pad'') (34 # js ''^1.3.0'' @ [34]) (js ''^1.3.0'')])
          = concat (map node_text a')"
    and l: "length a' = length example_ast"
    and f: "\<forall>i<length example_ast.
                 a' ! i = example_ast ! i
                 \<or> (\<exists>n sps sp. (n, sps) \<in> set (out_manifest out) \<and> sp \<in> set sps
                       \<and> state sp = Updated \<and> selects (sect sp) n (example_ast ! i)
                       \<and> a' ! i = node_set (example_ast ! i) (JSON_stringify example_env (sNew sp)) (sNew sp))"
    by blast
  have raw: "\<not> selects s n (example_ast ! 0)" "\<not> selects s n (example_ast ! 2)"
    "\<not> selects s n (example_ast ! 4)" "\<not> selects s n (example_ast ! 6)" for s n
    by (simp_all add: example_ast_def)
  have m: "out_manifest out =
            [(js ''left-pad'',
              [\<lparr>sect = js ''devDependencies'', sOld = js ''~1.2.0'', vOld = js ''1.2.0'',
                 sNew = js ''~1.3.0'', vNew = js ''1.3.0'', state = Updated\<rparr>,
               \<lparr>sect = js ''dependencies'', sOld = js ''^1.2.0'', vOld = js ''1.2.0'',
                 sNew = js ''^1.3.0'', vNew = js ''1.3.0'', state = Updated\<rparr>]),
             (js ''is-odd'',
              [\<lparr>sect = js ''dependencies'', sOld = js ''git+https://example/repo.git'',
                 vOld = js ''git+https://example/repo.git'', sNew = js ''git+https://example/repo.git'',
                 vNew = js ''git+https://example/repo.git'', state = Skipped\<rparr>])]"
    using out unfolding example_run by auto
  have upd: "n = js ''left-pad''"
    if "(n, sps) \<in> set (out_manifest out)" "sp \<in> set sps" "state sp = Updated" for n sps sp
    using that unfolding m by auto
  have sel: "n = js ''is-odd''" if "selects s n (example_ast ! 5)" for s n
    using that by (simp add: example_ast_def)
  have odd: "\<not> (\<exists>n sps sp. (n, sps) \<in> set (out_manifest out) \<and> sp \<in> set sps
                       \<and> state sp = Updated \<and> selects (sect sp) n (example_ast ! 5))"
  proof
    assume "\<exists>n sps sp. (n, sps) \<in> set (out_manifest out) \<and> sp \<in> set sps
                       \<and> state sp = Updated \<and> selects (sect sp) n (example_ast ! 5)"
    then obtain n sps sp where "(n, sps) \<in> set (out_manifest out)" "sp \<in> set sps"
      "state sp = Updated" "selects (sect sp) n (example_ast ! 5)"
      by blast
    then have "n = js ''left-pad''" "n = js ''is-odd''" using upd sel by blast+
    then show False by (simp add: js_inject)
  qed
  have k: "a' ! i = example_ast ! i"
    if "i < length example_ast"
      "\<not> (\<exists>n sps sp. (n, sps) \<in> set (out_manifest out) \<and> sp \<in> set sps
                       \<and> state sp = Updated \<and> selects (sect sp) n (example_ast ! i))" for i
    using f that by blast
  have "a' ! 0 = example_ast ! 0" "a' ! 2 = example_ast ! 2" "a' ! 4 = example_ast ! 4"
    "a' ! 6 = example_ast ! 6"
    using k[of 0] k[of 2] k[of 4] k[of 6] raw by (simp_all add: example_ast_length)
  moreover have "a' ! 5 = example_ast ! 5"
    using k[of 5] odd by (simp add: example_ast_length)
  ultimately show ?thesis
    using out w r p example_unparse a' l
    by (intro exI[of _ out] exI[of _ "concat (map node_text a')"] exI[of _ a']) simp
qed




end
